theory Spec2Isabelle
  imports Complex_Main "HOL-Library.Extended_Nat" "HOL-Library.Word"
begin

section \<open>Hash comparison utilities\<close>

text \<open>
  Fingerprints are JavaScript strings of the characters 0 and 1; they are modelled as
  \<^typ>\<open>string\<close>. The functions below take the documented parameter type (a string);
  the empty string is the one falsy string, and it takes the early return of the source.
  A distance is a JavaScript number that is either a count or \<open>Infinity\<close>: an
  \<^typ>\<open>enat\<close>.
\<close>

definition HAMMING_THRESHOLD :: nat where
  "HAMMING_THRESHOLD = 12"

definition MIN_ONES_ZEROS :: nat where
  "MIN_ONES_ZEROS = 4"

text \<open>
  The counting loop of both distance functions:
  \<^verbatim>\<open>for (let i = 0; i < minLength; i++) if (hash1[i] !== hash2[i]) distance++;\<close>
\<close>

definition count_differences :: "string \<Rightarrow> string \<Rightarrow> nat \<Rightarrow> nat" where
  "count_differences hash1 hash2 minLength =
     fold (\<lambda>i distance. if hash1 ! i \<noteq> hash2 ! i then distance + 1 else distance)
       [0..<minLength] 0"

text \<open>\<open>Math.abs(hash1.length - hash2.length)\<close> on two lengths.\<close>

definition abs_length_difference :: "string \<Rightarrow> string \<Rightarrow> nat" where
  "abs_length_difference hash1 hash2 = nat \<bar>int (length hash1) - int (length hash2)\<bar>"

text \<open>\<open>HashUtils.hammingDistance\<close>.\<close>

definition hammingDistance :: "string \<Rightarrow> string \<Rightarrow> enat" where
  "hammingDistance hash1 hash2 =
     (if hash1 = [] \<or> hash2 = [] then \<infinity>
      else let minLength = min (length hash1) (length hash2);
               distance = count_differences hash1 hash2 minLength
           in enat (distance + abs_length_difference hash1 hash2))"

text \<open>\<open>hamming\<close> of the stand-alone content script.\<close>

definition hamming :: "string \<Rightarrow> string \<Rightarrow> enat" where
  "hamming a b =
     (if a = [] \<or> b = [] then \<infinity>
      else let L = min (length a) (length b);
               dist = count_differences a b L
           in enat (dist + abs_length_difference a b))"

text \<open>
  \<open>HashUtils.areHashesSimilar\<close>: \<open>distance <= threshold\<close>. The threshold is a
  finite JavaScript number, modelled as a real; \<open>Infinity <= threshold\<close> is false for
  every finite threshold.
\<close>

definition js_le :: "enat \<Rightarrow> real \<Rightarrow> bool" where
  "js_le distance threshold =
     (case distance of enat n \<Rightarrow> real n \<le> threshold | \<infinity> \<Rightarrow> False)"

definition areHashesSimilar :: "string \<Rightarrow> string \<Rightarrow> real \<Rightarrow> bool" where
  "areHashesSimilar hash1 hash2 threshold =
     (let distance = hammingDistance hash1 hash2;
          similar = js_le distance threshold
      in similar)"

text \<open>\<open>(hash.match(/1/g) || []).length\<close>: the number of characters 1.\<close>

definition count_ones :: "string \<Rightarrow> nat" where
  "count_ones hash = length (filter (\<lambda>c. c = CHR ''1'') hash)"

text \<open>
  \<open>HashUtils.isTrivialHash\<close>. \<open>zeros\<close> is \<open>hash.length - ones\<close>, never negative.
\<close>

definition isTrivialHash :: "string \<Rightarrow> bool" where
  "isTrivialHash hash =
     (if hash = [] then True
      else let ones = count_ones hash;
               zeros = length hash - ones;
               isTrivial = (ones \<le> MIN_ONES_ZEROS \<or> zeros \<le> MIN_ONES_ZEROS)
           in isTrivial)"

text \<open>\<open>isTrivialHash\<close> of the stand-alone content script, with the literal 4.\<close>

definition isTrivialHash_script :: "string \<Rightarrow> bool" where
  "isTrivialHash_script hash =
     (if hash = [] then True
      else let ones = count_ones hash;
               zeros = length hash - ones
           in if ones \<le> 4 \<or> zeros \<le> 4 then True else False)"

section \<open>Perceptual hash\<close>

text \<open>
  A matrix is an array of rows of numbers. The entries are finite numbers, and the
  arithmetic of the transform is taken over the reals. A row with fewer than \<open>N\<close>
  entries makes \<open>matrix[y][x]\<close> \<open>undefined\<close> for some \<open>x < N\<close>; the product with it is
  \<open>NaN\<close>, every sum of \<open>dct2D\<close> runs over all \<open>y, x < N\<close>, and so every coefficient of
  the result is \<open>NaN\<close>: \<open>dct2D\<close> returns \<open>None\<close> for that matrix of \<open>NaN\<close>s.
\<close>

type_synonym matrix = "real list list"

definition CANVAS_SIZE :: nat where
  "CANVAS_SIZE = 32"

definition DCT_BLOCK_SIZE :: nat where
  "DCT_BLOCK_SIZE = 8"

definition alpha :: "nat \<Rightarrow> real" where
  "alpha u = (if u = 0 then 1 / sqrt 2 else 1)"

text \<open>The two inner loops of \<open>dct2D\<close>, over \<open>y\<close> and then \<open>x\<close>, adding to \<open>sum\<close>.\<close>

definition dct_sum :: "matrix \<Rightarrow> nat \<Rightarrow> nat \<Rightarrow> nat \<Rightarrow> real" where
  "dct_sum m N u v =
     fold (\<lambda>y sum.
        fold (\<lambda>x sum. sum + m ! y ! x *
                cos ((real (2 * x + 1) * real u * pi) / real (2 * N)) *
                cos ((real (2 * y + 1) * real v * pi) / real (2 * N)))
          [0..<N] sum)
       [0..<N] 0"

definition dct2D :: "matrix \<Rightarrow> matrix option" where
  "dct2D m =
     (let N = length m in
      if list_ex (\<lambda>row. length row < N) m then None
      else Some (map (\<lambda>u. map (\<lambda>v. (2 / real N) * alpha u * alpha v * dct_sum m N u v)
                               [0..<N]) [0..<N]))"

text \<open>
  The extraction loop: \<open>y\<close> and \<open>x\<close> run over the block, position (0,0) is skipped,
  \<open>dct[y][x]\<close> is pushed.
\<close>

definition extract_block :: "matrix \<Rightarrow> real list" where
  "extract_block dct =
     concat (map (\<lambda>y. map (\<lambda>x. dct ! y ! x)
                         (filter (\<lambda>x. \<not> (x = 0 \<and> y = 0)) [0..<DCT_BLOCK_SIZE]))
                 [0..<DCT_BLOCK_SIZE])"

text \<open>
  \<open>sorted[Math.floor(sorted.length / 2)]\<close> of the block sorted ascending, and one
  character per coefficient of the block.
\<close>

definition median_of :: "real list \<Rightarrow> real" where
  "median_of block = (let sorted = sort block in sorted ! (length sorted div 2))"

definition hash_bits :: "real list \<Rightarrow> string" where
  "hash_bits block =
     (let median = median_of block
      in map (\<lambda>v. if v > median then CHR ''1'' else CHR ''0'') block)"

text \<open>
  The number of entries the extraction loop pushes: the block without position (0,0).
  A block of \<open>NaN\<close>s has the median \<open>NaN\<close>, and \<open>v > median\<close> is false for each entry.
\<close>

definition block_length :: nat where
  "block_length = DCT_BLOCK_SIZE * DCT_BLOCK_SIZE - 1"

definition nan_bits :: string where
  "nan_bits = replicate block_length (CHR ''0'')"

datatype error = InvalidMatrixSize | TypeError

text \<open>
  The body of the \<open>try\<close> of \<open>HashUtils.computePHashFromMatrix\<close>. The argument is
  \<open>None\<close> for \<open>null\<close> or \<open>undefined\<close>. \<open>Inl InvalidMatrixSize\<close> is the thrown
  \<open>Error('Invalid matrix size')\<close>.
\<close>

definition computePHashFromMatrix_try :: "matrix option \<Rightarrow> error + string" where
  "computePHashFromMatrix_try matrix32 =
     (case matrix32 of
        None \<Rightarrow> Inl InvalidMatrixSize
      | Some m \<Rightarrow>
          if length m \<noteq> CANVAS_SIZE then Inl InvalidMatrixSize
          else (case dct2D m of
                  None \<Rightarrow> Inr nan_bits
                | Some dct \<Rightarrow> Inr (hash_bits (extract_block dct))))"

text \<open>
  \<open>HashUtils.computePHashFromMatrix\<close>: the \<open>catch\<close> passes the error to the logger
  and returns \<open>null\<close>, which is \<open>None\<close>.
\<close>

definition computePHashFromMatrix :: "matrix option \<Rightarrow> string option" where
  "computePHashFromMatrix matrix32 =
     (case computePHashFromMatrix_try matrix32 of
        Inl e \<Rightarrow> None
      | Inr bits \<Rightarrow> Some bits)"

text \<open>
  \<open>computePHashFromMatrix\<close> of the stand-alone content script: no size check and no
  \<open>try\<close>. With fewer than 8 rows, \<open>dct[y]\<close> is \<open>undefined\<close> for some \<open>y < 8\<close> and
  reading \<open>dct[y][x]\<close> throws a TypeError.
\<close>

definition computePHashFromMatrix_script :: "matrix \<Rightarrow> error + string" where
  "computePHashFromMatrix_script matrix32 =
     (if length matrix32 < 8 then Inl TypeError
      else (case dct2D matrix32 of
              None \<Rightarrow> Inr nan_bits
            | Some dct \<Rightarrow> Inr (hash_bits (extract_block dct))))"

section \<open>Grayscale conversion\<close>

text \<open>
  The numbers of the grayscale conversion are IEEE 754 doubles. A finite double is the
  real number it denotes, and an operation (or a decimal literal) yields the exact
  result rounded to the nearest double: to 53 significant bits, a tie to the even
  significand. \<open>binade x\<close> is the exponent \<open>e\<close> with \<open>2^e \<le> x < 2^(e+1)\<close>, for
  \<open>x > 0\<close>; below \<open>2^-1022\<close> the spacing of the doubles stays that of the smallest
  binade. Results of magnitude \<open>2^1024\<close> and more (\<open>Infinity\<close>) do not arise from
  bytes and are outside the model.
\<close>

fun bit_length :: "nat \<Rightarrow> nat" where
  "bit_length n = (if n = 0 then 0 else Suc (bit_length (n div 2)))"

declare bit_length.simps [simp del]

definition round_even :: "real \<Rightarrow> int" where
  "round_even t =
     (let f = \<lfloor>t\<rfloor>; d = t - of_int f
      in if d < 1 / 2 then f else if d > 1 / 2 then f + 1
         else if even f then f else f + 1)"

definition binade :: "real \<Rightarrow> int" where
  "binade x =
     (if 1 \<le> x then int (bit_length (nat \<lfloor>x\<rfloor>)) - 1
      else - int (bit_length (nat (\<lceil>1 / x\<rceil> - 1))))"

definition fl :: "real \<Rightarrow> real" where
  "fl x =
     (if x = 0 then 0
      else let e = max (binade \<bar>x\<bar>) (- 1022);
               u = 2 powi (e - 52)
           in sgn x * (u * of_int (round_even (\<bar>x\<bar> / u))))"

text \<open>The operators \<open>+\<close>, \<open>*\<close> and \<open>/\<close> on doubles.\<close>

definition double_add :: "real \<Rightarrow> real \<Rightarrow> real" where
  "double_add a b = fl (a + b)"

definition double_mul :: "real \<Rightarrow> real \<Rightarrow> real" where
  "double_mul a b = fl (a * b)"

definition double_div :: "real \<Rightarrow> real \<Rightarrow> real" where
  "double_div a b = fl (a / b)"

text \<open>
  Image data is a \<open>Uint8ClampedArray\<close>: a list of bytes, four per pixel. A read past
  its end is \<open>undefined\<close> and the arithmetic on it \<open>NaN\<close>, which is \<open>None\<close> in the
  matrices below. \<open>Math.round\<close> returns the integer nearest to its argument, a tie
  towards \<open>+Infinity\<close>.
\<close>

definition Math_round :: "real \<Rightarrow> int" where
  "Math_round x = \<lfloor>x + 1 / 2\<rfloor>"

definition byte :: "8 word \<Rightarrow> real" where
  "byte w = real (unat w)"

text \<open>
  \<open>VideoUtils.imageDataToGrayscaleMatrix\<close>: the body of its two loops, and the loops.
  \<open>0.299 * r + 0.587 * g + 0.114 * b\<close> is three products and two sums, from the left.
\<close>

definition grayscale_pixel :: "8 word list \<Rightarrow> nat \<Rightarrow> nat \<Rightarrow> nat \<Rightarrow> int option" where
  "grayscale_pixel data sz y x =
     (let idx = (y * sz + x) * 4 in
      if idx + 2 < length data then
        let r = byte (data ! idx);
            g = byte (data ! (idx + 1));
            b = byte (data ! (idx + 2));
            gray = Math_round
                     (double_add (double_add (double_mul (fl 0.299) r) (double_mul (fl 0.587) g))
                        (double_mul (fl 0.114) b))
        in Some gray
      else None)"

definition imageDataToGrayscaleMatrix :: "8 word list \<Rightarrow> nat \<Rightarrow> int option list list" where
  "imageDataToGrayscaleMatrix data sz =
     map (\<lambda>y. map (\<lambda>x. grayscale_pixel data sz y x) [0..<sz]) [0..<sz]"

text \<open>
  The accumulation loop of \<open>computeMultiFramePHash\<close> in the stand-alone content script.
  \<open>idx\<close> starts at 0 and is incremented four times per pixel, so the pixel at \<open>(y, x)\<close>
  is read at \<open>4 * (y * N + x)\<close>; \<open>acc\<close> is an \<open>N\<close> by \<open>N\<close> matrix.
\<close>

definition script_gray :: "8 word list \<Rightarrow> nat \<Rightarrow> real option" where
  "script_gray img idx =
     (if idx + 2 < length img then
        let r = byte (img ! idx);
            g = byte (img ! (idx + 1));
            b = byte (img ! (idx + 2));
            gray = double_div (double_add (double_add r g) b) 3
        in Some gray
      else None)"

definition script_accumulate :: "nat \<Rightarrow> 8 word list \<Rightarrow> real option list list \<Rightarrow> real option list list" where
  "script_accumulate N img acc =
     map (\<lambda>y. map (\<lambda>x. case (acc ! y ! x, script_gray img (4 * (y * N + x))) of
                          (Some a, Some gray) \<Rightarrow> Some (double_add a gray)
                        | _ \<Rightarrow> None)
                  [0..<N]) [0..<N]"

text \<open>\<open>acc.map(row => row.map(v => v / captured))\<close>, for \<open>captured > 0\<close>.\<close>

definition script_average :: "real option list list \<Rightarrow> nat \<Rightarrow> real option list list" where
  "script_average acc captured = map (map (map_option (\<lambda>v. double_div v (real captured)))) acc"

section \<open>Concurrency queue\<close>

text \<open>
  A job is an object; \<open>ref\<close> is its identity, which the \<open>Set\<close> of active jobs compares.
  The task, the promise callbacks and the creation time are left out: a task is opaque,
  and the settlement of its promise (or of the timeout raced against it) reaches the
  queue as an event.
\<close>

record job =
  ref :: nat
  jid :: string
  priority :: int

datatype log_entry =
    JobEnqueued string int nat nat
  | JobStarted string nat
  | JobCompleted string int
  | JobFailed string string

record queue =
  activeJobs :: "job list"
  pendingJobs :: "job list"
  maxConcurrent :: int
  totalJobs :: nat
  completedJobs :: nat
  failedJobs :: nat
  queuedJobs :: int
  created :: nat
  logged :: "log_entry list"

definition MAX_CONCURRENT :: int where
  "MAX_CONCURRENT = 3"

text \<open>The constructor. \<open>created\<close> counts the job objects made so far.\<close>

definition new_queue :: queue where
  "new_queue = \<lparr> activeJobs = [], pendingJobs = [], maxConcurrent = MAX_CONCURRENT,
                 totalJobs = 0, completedJobs = 0, failedJobs = 0, queuedJobs = 0,
                 created = 0, logged = [] \<rparr>"

text \<open>\<open>Set.add\<close> and \<open>Set.delete\<close> on a set kept in insertion order.\<close>

definition set_add :: "'a \<Rightarrow> 'a list \<Rightarrow> 'a list" where
  "set_add x xs = (if x \<in> set xs then xs else xs @ [x])"

definition set_delete :: "'a \<Rightarrow> 'a list \<Rightarrow> 'a list" where
  "set_delete x xs = removeAll x xs"

text \<open>\<open>Array.prototype.findIndex\<close> (-1 when no element satisfies the predicate) and
  \<open>splice(i, 0, x)\<close>.\<close>

fun findIndex :: "('a \<Rightarrow> bool) \<Rightarrow> 'a list \<Rightarrow> int" where
  "findIndex P [] = - 1"
| "findIndex P (x # xs) =
     (if P x then 0
      else let r = findIndex P xs in if r = - 1 then - 1 else r + 1)"

definition splice_insert :: "int \<Rightarrow> 'a \<Rightarrow> 'a list \<Rightarrow> 'a list" where
  "splice_insert i x xs = take (nat i) xs @ x # drop (nat i) xs"

text \<open>The insertion of \<open>enqueue\<close>.\<close>

definition insert_by_priority :: "job \<Rightarrow> job list \<Rightarrow> job list" where
  "insert_by_priority job pending =
     (let insertIndex = findIndex (\<lambda>j. priority j < priority job) pending
      in if insertIndex = - 1 then pending @ [job]
         else splice_insert insertIndex job pending)"

text \<open>\<open>executeJob\<close> up to its \<open>await\<close>: the job joins the active set and the start is
  logged with the size of the active set.\<close>

definition executeJob_start :: "job \<Rightarrow> queue \<Rightarrow> queue" where
  "executeJob_start job q =
     (let active = set_add job (activeJobs q)
      in q\<lparr> activeJobs := active,
            logged := logged q @ [JobStarted (jid job) (length active)] \<rparr>)"

function processQueue :: "queue \<Rightarrow> queue" where
  "processQueue q =
     (if int (length (activeJobs q)) < maxConcurrent q \<and> pendingJobs q \<noteq> [] then
        processQueue
          (executeJob_start (hd (pendingJobs q))
             (q\<lparr> pendingJobs := tl (pendingJobs q), queuedJobs := queuedJobs q - 1 \<rparr>))
      else q)"
  by pat_completeness auto
termination
  by (relation "measure (\<lambda>q. length (pendingJobs q))") (auto simp: executeJob_start_def Let_def)

declare processQueue.simps [simp del]

definition enqueue :: "string \<Rightarrow> int \<Rightarrow> queue \<Rightarrow> queue" where
  "enqueue ident prio q =
     (let job = \<lparr> ref = created q, jid = ident, priority = prio \<rparr>;
          q1 = q\<lparr> created := created q + 1,
                 totalJobs := totalJobs q + 1,
                 queuedJobs := queuedJobs q + 1,
                 logged := logged q @
                   [JobEnqueued ident prio (length (pendingJobs q)) (length (activeJobs q))] \<rparr>;
          q2 = q1\<lparr> pendingJobs := insert_by_priority job (pendingJobs q1) \<rparr>
      in processQueue q2)"

text \<open>
  \<open>executeJob\<close> after its \<open>await\<close>, for a job that is active: the race was won by the
  task's result, by the task's error or by the timeout; then the \<open>finally\<close> block.
\<close>

datatype outcome = Resolved | Rejected string | TimedOut

definition settle :: "job \<Rightarrow> outcome \<Rightarrow> queue \<Rightarrow> queue" where
  "settle job out q =
     (if job \<notin> set (activeJobs q) then q
      else
        let q1 = (case out of
                    Resolved \<Rightarrow>
                      q\<lparr> completedJobs := completedJobs q + 1,
                         logged := logged q @
                           [JobCompleted (jid job) (int (length (activeJobs q)) - 1)] \<rparr>
                  | Rejected msg \<Rightarrow>
                      q\<lparr> failedJobs := failedJobs q + 1,
                         logged := logged q @ [JobFailed (jid job) msg] \<rparr>
                  | TimedOut \<Rightarrow>
                      q\<lparr> failedJobs := failedJobs q + 1,
                         logged := logged q @ [JobFailed (jid job) ''Job timeout''] \<rparr>);
            q2 = q1\<lparr> activeJobs := set_delete job (activeJobs q1) \<rparr>
        in processQueue q2)"

text \<open>What happens to a queue: calls of \<open>enqueue\<close> and settlements of started jobs.\<close>

datatype event = Enqueue string int | Settle job outcome

fun apply_event :: "queue \<Rightarrow> event \<Rightarrow> queue" where
  "apply_event q (Enqueue ident prio) = enqueue ident prio q"
| "apply_event q (Settle job out) = settle job out q"

definition run :: "event list \<Rightarrow> queue \<Rightarrow> queue" where
  "run evs q = foldl apply_event q evs"

text \<open>Instrumentation: the active-set sizes and the job ids of the logged starts.\<close>

fun started_size :: "log_entry \<Rightarrow> nat option" where
  "started_size (JobStarted _ n) = Some n"
| "started_size _ = None"

fun started_id :: "log_entry \<Rightarrow> string option" where
  "started_id (JobStarted i _) = Some i"
| "started_id _ = None"

definition start_sizes :: "queue \<Rightarrow> nat list" where
  "start_sizes q = List.map_filter started_size (logged q)"

definition start_order :: "queue \<Rightarrow> string list" where
  "start_order q = List.map_filter started_id (logged q)"

definition priorities :: "job list \<Rightarrow> int list" where
  "priorities js = map priority js"

text \<open>The capacity bound: on the active set now, and at every logged start.\<close>

definition capacity_ok :: "queue \<Rightarrow> bool" where
  "capacity_ok q \<longleftrightarrow>
     int (length (activeJobs q)) \<le> maxConcurrent q
     \<and> list_all (\<lambda>n. int n \<le> maxConcurrent q) (start_sizes q)"

text \<open>
  The number of jobs the active set can still take. The jobs of a queue are distinct
  objects created before now; and a job waits only while the active set is full.
\<close>

definition free_slots :: "queue \<Rightarrow> nat" where
  "free_slots q = nat (maxConcurrent q - int (length (activeJobs q)))"

definition fresh_refs :: "queue \<Rightarrow> bool" where
  "fresh_refs q \<longleftrightarrow>
     distinct (map ref (activeJobs q @ pendingJobs q))
     \<and> list_all (\<lambda>j. ref j < created q) (activeJobs q @ pendingJobs q)"

definition saturated :: "queue \<Rightarrow> bool" where
  "saturated q \<longleftrightarrow> pendingJobs q = [] \<or> maxConcurrent q \<le> int (length (activeJobs q))"

section \<open>Properties of the hash comparison utilities\<close>

lemma fold_count_upt:
  "fold (\<lambda>i d. if P i then d + 1 else d) [0..<n] (d0::nat) = d0 + card {i. i < n \<and> P i}"
proof (induction n arbitrary: d0)
  case 0
  then show ?case by simp
next
  case (Suc n)
  have split: "{i. i < Suc n \<and> P i} = (if P n then insert n {i. i < n \<and> P i} else {i. i < n \<and> P i})"
    by (auto simp: less_Suc_eq)
  show ?case
    by (simp add: Suc.IH split)
qed

lemma count_differences_card:
  "count_differences a b n = card {i. i < n \<and> a ! i \<noteq> b ! i}"
  unfolding count_differences_def by (simp add: fold_count_upt)

lemma count_ones_le_length: "count_ones h \<le> length h"
  unfolding count_ones_def by simp

lemma count_zeros_bitstring:
  assumes "set h \<subseteq> {CHR ''0'', CHR ''1''}"
  shows "length (filter (\<lambda>c. c = CHR ''0'') h) = length h - count_ones h"
proof -
  have "filter (\<lambda>c. c = CHR ''0'') h = filter (\<lambda>c. \<not> c = CHR ''1'') h"
    using assms by (intro filter_cong) auto
  moreover have "length (filter (\<lambda>c. c = CHR ''1'') h) + length (filter (\<lambda>c. \<not> c = CHR ''1'') h) = length h"
    by (rule sum_length_filter_compl)
  ultimately show ?thesis
    unfolding count_ones_def by simp
qed

lemma isTrivialHash_iff:
  "isTrivialHash h \<longleftrightarrow>
     count_ones h \<le> MIN_ONES_ZEROS \<or> length h - count_ones h \<le> MIN_ONES_ZEROS"
  by (auto simp: isTrivialHash_def Let_def count_ones_def)

text \<open>
  Claim C3. For non-empty strings \<open>a\<close> and \<open>b\<close>, \<open>hammingDistance a b\<close> is the number
  of positions below the shorter length at which the two strings differ, plus the
  absolute difference of the two lengths; \<open>hamming\<close> of the content script computes the
  same number.
\<close>

theorem C3_hamming_distance_formula:
  assumes "a \<noteq> []" and "b \<noteq> []"
  shows "hammingDistance a b =
           enat (card {i. i < min (length a) (length b) \<and> a ! i \<noteq> b ! i}
                 + nat \<bar>int (length a) - int (length b)\<bar>)
       \<and> hamming a b = hammingDistance a b"
  using assms
  by (simp add: hammingDistance_def hamming_def count_differences_card
      abs_length_difference_def Let_def)

theorem C3_hamming_distance_witness:
  "''0110'' \<noteq> [] \<and> ''110'' \<noteq> [] \<and> hammingDistance ''0110'' ''110'' = 3
   \<and> card {i. i < min (length ''0110'') (length ''110'') \<and> ''0110'' ! i \<noteq> ''110'' ! i} = 2"
proof -
  have d: "hammingDistance ''0110'' ''110'' = 3"
    by (simp add: hammingDistance_def count_differences_def abs_length_difference_def
        Let_def upt_rec numeral_eq_enat)
  from C3_hamming_distance_formula [of "''0110''" "''110''"] d
  show ?thesis by (simp add: numeral_eq_enat)
qed

text \<open>
  Claim C5. A string of zeros and ones is trivial exactly when its number of ones or its
  number of zeros is at most \<open>MIN_ONES_ZEROS\<close>, which is 4. The bound is inclusive: every
  63-character string with exactly 4 ones is trivial, and none with exactly 5 ones is.
  The content script's \<open>isTrivialHash\<close> decides the same.
\<close>

theorem C5_trivial_boundary:
  "(set h \<subseteq> {CHR ''0'', CHR ''1''} \<longrightarrow>
      (isTrivialHash h \<longleftrightarrow>
         length (filter (\<lambda>c. c = CHR ''1'') h) \<le> MIN_ONES_ZEROS
         \<or> length (filter (\<lambda>c. c = CHR ''0'') h) \<le> MIN_ONES_ZEROS))
   \<and> MIN_ONES_ZEROS = 4
   \<and> (length h = 63 \<and> count_ones h = 4 \<longrightarrow> isTrivialHash h)
   \<and> (length h = 63 \<and> count_ones h = 5 \<longrightarrow> \<not> isTrivialHash h)
   \<and> isTrivialHash_script h = isTrivialHash h"
proof (intro conjI impI)
  assume "set h \<subseteq> {CHR ''0'', CHR ''1''}"
  from count_zeros_bitstring [OF this]
  show "isTrivialHash h \<longleftrightarrow>
         length (filter (\<lambda>c. c = CHR ''1'') h) \<le> MIN_ONES_ZEROS
         \<or> length (filter (\<lambda>c. c = CHR ''0'') h) \<le> MIN_ONES_ZEROS"
    by (simp add: isTrivialHash_iff count_ones_def)
next
  show "MIN_ONES_ZEROS = 4" by (simp add: MIN_ONES_ZEROS_def)
next
  assume "length h = 63 \<and> count_ones h = 4"
  then show "isTrivialHash h" by (simp add: isTrivialHash_iff MIN_ONES_ZEROS_def)
next
  assume "length h = 63 \<and> count_ones h = 5"
  then show "\<not> isTrivialHash h" by (simp add: isTrivialHash_iff MIN_ONES_ZEROS_def)
next
  show "isTrivialHash_script h = isTrivialHash h"
    by (simp add: isTrivialHash_script_def isTrivialHash_def MIN_ONES_ZEROS_def Let_def)
qed

theorem C5_trivial_boundary_witness:
  "set (replicate 4 (CHR ''1'') @ replicate 59 (CHR ''0'')) \<subseteq> {CHR ''0'', CHR ''1''}
   \<and> length (replicate 4 (CHR ''1'') @ replicate 59 (CHR ''0'')) = 63
   \<and> count_ones (replicate 4 (CHR ''1'') @ replicate 59 (CHR ''0'')) = 4
   \<and> isTrivialHash (replicate 4 (CHR ''1'') @ replicate 59 (CHR ''0''))
   \<and> length (replicate 5 (CHR ''1'') @ replicate 58 (CHR ''0'')) = 63
   \<and> count_ones (replicate 5 (CHR ''1'') @ replicate 58 (CHR ''0'')) = 5
   \<and> \<not> isTrivialHash (replicate 5 (CHR ''1'') @ replicate 58 (CHR ''0''))"
  using C5_trivial_boundary [of "replicate 4 (CHR ''1'') @ replicate 59 (CHR ''0'')"]
        C5_trivial_boundary [of "replicate 5 (CHR ''1'') @ replicate 58 (CHR ''0'')"]
  by (simp add: count_ones_def)

text \<open>
  Claim C9. \<open>areHashesSimilar a b t\<close> holds exactly when the distance of \<open>a\<close> and \<open>b\<close> is
  a number at most \<open>t\<close>, the bound included; and a match at threshold \<open>t\<close> is a match
  at every threshold \<open>t'\<close> with \<open>t \<le> t'\<close>.
\<close>

theorem C9_threshold_monotone:
  "(areHashesSimilar a b t \<longleftrightarrow> (\<exists>n. hammingDistance a b = enat n \<and> real n \<le> t))
   \<and> (t \<le> t' \<longrightarrow> areHashesSimilar a b t \<longrightarrow> areHashesSimilar a b t')"
proof (intro conjI impI)
  show "areHashesSimilar a b t \<longleftrightarrow> (\<exists>n. hammingDistance a b = enat n \<and> real n \<le> t)"
    by (cases "hammingDistance a b") (simp_all add: areHashesSimilar_def js_le_def)
next
  assume le: "t \<le> t'" and match: "areHashesSimilar a b t"
  show "areHashesSimilar a b t'"
  proof (cases "hammingDistance a b")
    case (enat n)
    then have "real n \<le> t" using match by (simp add: areHashesSimilar_def js_le_def)
    then have "real n \<le> t'" using le by simp
    then show ?thesis using enat by (simp add: areHashesSimilar_def js_le_def)
  next
    case infinity
    then show ?thesis using match by (simp add: areHashesSimilar_def js_le_def)
  qed
qed

theorem C9_threshold_monotone_witness:
  "(1::real) \<le> 12 \<and> areHashesSimilar ''0110'' ''0111'' 1 \<and> areHashesSimilar ''0110'' ''0111'' 12
   \<and> hammingDistance ''0110'' ''0111'' = enat 1"
proof -
  have d: "hammingDistance ''0110'' ''0111'' = enat 1"
    by (simp add: hammingDistance_def count_differences_def abs_length_difference_def
        Let_def upt_rec)
  from C9_threshold_monotone [of "''0110''" "''0111''" 1 12] d
  show ?thesis by simp
qed


section \<open>Properties of the perceptual hash\<close>

lemma length_extract_block: "length (extract_block d) = 63"
  unfolding extract_block_def DCT_BLOCK_SIZE_def
  by (simp add: upt_rec)

lemma block_length_63: "block_length = 63"
  by (simp add: block_length_def DCT_BLOCK_SIZE_def)

lemma length_hash_bits: "length (hash_bits block) = length block"
  by (simp add: hash_bits_def Let_def)

lemma count_above_median:
  fixes xs :: "real list"
  assumes "length xs = 63"
  shows "length (filter (\<lambda>v. v > median_of xs) xs) \<le> 31"
proof -
  define s where "s = sort xs"
  have ls: "length s = 63" by (simp add: s_def assms)
  have med: "median_of xs = s ! 31" by (simp add: median_of_def s_def Let_def assms)
  have srt: "sorted s" by (simp add: s_def)
  have "length (filter (\<lambda>v. v > s ! 31) xs) = length (filter (\<lambda>v. v > s ! 31) s)"
    by (simp add: s_def filter_sort)
  also have "filter (\<lambda>v. v > s ! 31) s
      = filter (\<lambda>v. v > s ! 31) (take 32 s) @ filter (\<lambda>v. v > s ! 31) (drop 32 s)"
    by (metis append_take_drop_id filter_append)
  finally have eq: "length (filter (\<lambda>v. v > s ! 31) xs)
      = length (filter (\<lambda>v. v > s ! 31) (take 32 s)) + length (filter (\<lambda>v. v > s ! 31) (drop 32 s))"
    by simp
  have "\<forall>v \<in> set (take 32 s). v \<le> s ! 31"
  proof
    fix v assume "v \<in> set (take 32 s)"
    then obtain i where i: "i < 32" "v = s ! i"
      using ls by (auto simp: in_set_conv_nth)
    then show "v \<le> s ! 31"
      using sorted_nth_mono [OF srt, of i 31] ls by simp
  qed
  then have "filter (\<lambda>v. v > s ! 31) (take 32 s) = []"
    by (auto simp: filter_empty_conv)
  moreover have "length (filter (\<lambda>v. v > s ! 31) (drop 32 s)) \<le> length (drop 32 s)"
    by (rule length_filter_le)
  ultimately show ?thesis using eq ls med by simp
qed

lemma count_ones_bits:
  "length (filter (\<lambda>c. c = CHR ''1'') (map (\<lambda>v. if v > (m::real) then CHR ''1'' else CHR ''0'') block))
     = length (filter (\<lambda>v. v > m) block)"
  by (induction block) auto

lemma count_ones_hash_bits:
  "count_ones (hash_bits block) = length (filter (\<lambda>v. v > median_of block) block)"
  unfolding count_ones_def hash_bits_def Let_def by (rule count_ones_bits)


lemma try_32_rows:
  assumes "length m = 32"
  shows "computePHashFromMatrix_try (Some m) =
           Inr (case dct2D m of None \<Rightarrow> nan_bits | Some d \<Rightarrow> hash_bits (extract_block d))"
  using assms by (simp add: computePHashFromMatrix_try_def CANVAS_SIZE_def split: option.splits)

lemma script_32_rows:
  assumes "length m = 32"
  shows "computePHashFromMatrix_script m =
           Inr (case dct2D m of None \<Rightarrow> nan_bits | Some d \<Rightarrow> hash_bits (extract_block d))"
  using assms by (simp add: computePHashFromMatrix_script_def split: option.splits)

lemma length_bits_of:
  "length (case dct2D m of None \<Rightarrow> nan_bits | Some d \<Rightarrow> hash_bits (extract_block d)) = 63"
  by (simp add: nan_bits_def block_length_63 length_hash_bits length_extract_block split: option.splits)

lemma ones_bits_of:
  "count_ones (case dct2D m of None \<Rightarrow> nan_bits | Some d \<Rightarrow> hash_bits (extract_block d)) \<le> 31"
  by (simp add: nan_bits_def count_ones_def count_ones_hash_bits [unfolded count_ones_def] 
       count_above_median length_extract_block split: option.splits)

lemma dct_sum_zero:
  assumes "\<And>y x. y < N \<Longrightarrow> x < N \<Longrightarrow> m ! y ! x = 0"
  shows "dct_sum m N u v = 0"
proof -
  have inner: "fold (\<lambda>x sum. sum + m ! y ! x *
                cos ((real (2 * x + 1) * real u * pi) / real (2 * N)) *
                cos ((real (2 * y + 1) * real v * pi) / real (2 * N))) [0..<N] = id" if "y < N" for y
    by (rule fold_id) (use that assms in auto)
  have "fold (\<lambda>y sum.
        fold (\<lambda>x sum. sum + m ! y ! x *
                cos ((real (2 * x + 1) * real u * pi) / real (2 * N)) *
                cos ((real (2 * y + 1) * real v * pi) / real (2 * N)))
          [0..<N] sum) [0..<N] = id"
    by (rule fold_id) (use inner in auto)
  then show ?thesis by (simp add: dct_sum_def)
qed

lemma extract_block_const:
  assumes "\<And>y x. y < 8 \<Longrightarrow> x < 8 \<Longrightarrow> d ! y ! x = c"
  shows "extract_block d = replicate 63 c"
proof (rule replicate_eqI)
  show "length (extract_block d) = 63" by (rule length_extract_block)
next
  fix v assume "v \<in> set (extract_block d)"
  then show "v = c"
    by (auto simp: extract_block_def DCT_BLOCK_SIZE_def assms)
qed

lemma hash_bits_const: "hash_bits (replicate 63 (c::real)) = replicate 63 (CHR ''0'')"
proof -
  have "sort (replicate 63 c) ! 31 \<in> set (sort (replicate 63 c))"
    by (rule nth_mem) simp
  then have "median_of (replicate 63 c) = c"
    by (simp add: median_of_def Let_def)
  then show ?thesis by (simp add: hash_bits_def Let_def)
qed

lemma dct2D_zero:
  assumes "length m = 32" and "\<And>y x. y < 32 \<Longrightarrow> x < 32 \<Longrightarrow> m ! y ! x = 0"
    and "\<not> list_ex (\<lambda>row. length row < 32) m"
  shows "\<exists>d. dct2D m = Some d \<and> (\<forall>y<8. \<forall>x<8. d ! y ! x = 0)"
  using assms by (simp add: dct2D_def Let_def dct_sum_zero)

lemma phash_of_zeros:
  assumes "32 \<le> k"
  shows "computePHashFromMatrix (Some (replicate 32 (replicate k 0))) = Some (replicate 63 (CHR ''0''))"
proof -
  let ?m = "replicate 32 (replicate k (0::real))"
  have "\<exists>d. dct2D ?m = Some d \<and> (\<forall>y<8. \<forall>x<8. d ! y ! x = 0)"
    by (rule dct2D_zero) (use assms in \<open>simp_all add: list_ex_iff\<close>)
  then obtain d where d: "dct2D ?m = Some d" "\<And>y x. y < 8 \<Longrightarrow> x < 8 \<Longrightarrow> d ! y ! x = 0"
    by blast
  have "extract_block d = replicate 63 0"
    by (rule extract_block_const) (rule d(2))
  then have "hash_bits (extract_block d) = replicate 63 (CHR ''0'')"
    by (simp add: hash_bits_const)
  then show ?thesis
    by (simp add: computePHashFromMatrix_def try_32_rows d(1))
qed

text \<open>
  Claim C4. For every matrix of 32 rows of 32 numbers, \<open>computePHashFromMatrix\<close>
  returns a fingerprint, and its length is 63; the content script's
  \<open>computePHashFromMatrix\<close> returns the same string.
\<close>

theorem C4_fingerprint_length:
  assumes "length m = 32" and "list_all (\<lambda>row. length row = 32) m"
  shows "\<exists>h. computePHashFromMatrix (Some m) = Some h
           \<and> computePHashFromMatrix_script m = Inr h
           \<and> length h = 63"
  using assms(1)
  by (simp add: computePHashFromMatrix_def try_32_rows script_32_rows length_bits_of)

theorem C4_fingerprint_length_witness:
  "length (replicate 32 (replicate 32 (7::real))) = 32
   \<and> list_all (\<lambda>row. length row = 32) (replicate 32 (replicate 32 (7::real)))
   \<and> (\<exists>h. computePHashFromMatrix (Some (replicate 32 (replicate 32 7))) = Some h
           \<and> computePHashFromMatrix_script (replicate 32 (replicate 32 7)) = Inr h
           \<and> length h = 63)"
  using C4_fingerprint_length [of "replicate 32 (replicate 32 7)"]
  by (simp add: list_all_iff)

text \<open>
  Claim C10. The fingerprint of a matrix of 32 rows of 32 numbers has at most 31
  characters 1, strictly fewer than it has other characters: a 1 marks a coefficient
  strictly above the element at index 31 of the 63 sorted coefficients.
\<close>

theorem C10_at_most_31_ones:
  assumes "length m = 32" and "list_all (\<lambda>row. length row = 32) m"
  shows "\<exists>h. computePHashFromMatrix (Some m) = Some h
           \<and> computePHashFromMatrix_script m = Inr h
           \<and> count_ones h \<le> 31 \<and> count_ones h < length h - count_ones h"
proof -
  let ?h = "case dct2D m of None \<Rightarrow> nan_bits | Some d \<Rightarrow> hash_bits (extract_block d)"
  have "count_ones ?h \<le> 31" by (rule ones_bits_of)
  moreover have "length ?h = 63" by (rule length_bits_of)
  ultimately have "count_ones ?h \<le> 31 \<and> count_ones ?h < length ?h - count_ones ?h" by simp
  then show ?thesis using assms(1)
    by (simp add: computePHashFromMatrix_def try_32_rows script_32_rows)
qed

theorem C10_at_most_31_ones_witness:
  "length (replicate 32 (replicate 32 (9::real))) = 32
   \<and> list_all (\<lambda>row. length row = 32) (replicate 32 (replicate 32 (9::real)))
   \<and> (\<exists>h. computePHashFromMatrix (Some (replicate 32 (replicate 32 9))) = Some h
           \<and> computePHashFromMatrix_script (replicate 32 (replicate 32 9)) = Inr h
           \<and> count_ones h \<le> 31 \<and> count_ones h < length h - count_ones h)"
  using C10_at_most_31_ones [of "replicate 32 (replicate 32 9)"]
  by (simp add: list_all_iff)

text \<open>
  Claim C6. For the matrix of 32 rows of 32 zeros, \<open>computePHashFromMatrix\<close> returns
  the string of 63 characters 0, and \<open>isTrivialHash\<close> classifies that string as trivial.
\<close>

theorem C6_zero_matrix:
  "computePHashFromMatrix (Some (replicate 32 (replicate 32 0))) = Some (replicate 63 (CHR ''0''))
   \<and> isTrivialHash (replicate 63 (CHR ''0''))"
proof -
  have "computePHashFromMatrix (Some (replicate 32 (replicate 32 0))) = Some (replicate 63 (CHR ''0''))"
    by (rule phash_of_zeros) simp
  moreover have "isTrivialHash (replicate 63 (CHR ''0''))"
    by (simp add: isTrivialHash_iff count_ones_def MIN_ONES_ZEROS_def)
  ultimately show ?thesis by simp
qed

text \<open>
  Claim C7, as stated, fails. A matrix of 32 rows of 33 numbers is not 32 by 32, and
  \<open>computePHashFromMatrix\<close> returns a fingerprint for it. A matrix of 31 rows is
  refused, but what the caller receives is \<open>null\<close>: the error is raised and caught
  inside the function.
\<close>

theorem C7_wrong_size_counterexample:
  "length (replicate 32 (replicate 33 (0::real))) = 32
   \<and> \<not> list_all (\<lambda>row. length row = 32) (replicate 32 (replicate 33 (0::real)))
   \<and> computePHashFromMatrix (Some (replicate 32 (replicate 33 0))) = Some (replicate 63 (CHR ''0''))
   \<and> computePHashFromMatrix (Some (replicate 31 (replicate 32 0))) = None"
proof -
  have "computePHashFromMatrix (Some (replicate 32 (replicate 33 0))) = Some (replicate 63 (CHR ''0''))"
    by (rule phash_of_zeros) simp
  moreover have "computePHashFromMatrix (Some (replicate 31 (replicate 32 0))) = None"
    by (simp add: computePHashFromMatrix_def computePHashFromMatrix_try_def CANVAS_SIZE_def)
  ultimately show ?thesis by (simp add: list_all_iff)
qed

text \<open>
  Claim C7, amended. When the matrix is missing or its number of rows is not 32, the
  first statement of \<open>computePHashFromMatrix\<close> raises the error "Invalid matrix size";
  the function catches it and returns \<open>null\<close>, never a fingerprint.
\<close>

theorem C7_wrong_row_count:
  assumes "matrix32 = None \<or> (\<exists>m. matrix32 = Some m \<and> length m \<noteq> 32)"
  shows "computePHashFromMatrix_try matrix32 = Inl InvalidMatrixSize
         \<and> computePHashFromMatrix matrix32 = None"
  using assms
  by (auto simp: computePHashFromMatrix_def computePHashFromMatrix_try_def CANVAS_SIZE_def)

theorem C7_wrong_row_count_witness:
  "(\<exists>m. Some (replicate 31 (replicate 32 (0::real))) = Some m \<and> length m \<noteq> 32)
   \<and> computePHashFromMatrix_try (Some (replicate 31 (replicate 32 0))) = Inl InvalidMatrixSize
   \<and> computePHashFromMatrix (Some (replicate 31 (replicate 32 0))) = None"
  using C7_wrong_row_count [of "Some (replicate 31 (replicate 32 0))"]
  by simp

section \<open>Properties of the grayscale conversion\<close>

lemma bit_length_bounds:
  "0 < n \<Longrightarrow> 2 ^ (bit_length n - 1) \<le> n \<and> n < 2 ^ bit_length n"
proof (induction n rule: bit_length.induct)
  case (1 n)
  show ?case
  proof (cases "n div 2 = 0")
    case True
    then have "n = 1" using "1.prems" by presburger
    then show ?thesis by (simp add: bit_length.simps)
  next
    case False
    then have pos: "0 < n div 2" by simp
    have ih: "2 ^ (bit_length (n div 2) - 1) \<le> n div 2 \<and> n div 2 < 2 ^ bit_length (n div 2)"
      using "1.IH" "1.prems" pos by simp
    have bl: "bit_length n = Suc (bit_length (n div 2))"
      using "1.prems" by (subst bit_length.simps) simp
    have blpos: "0 < bit_length (n div 2)"
      using pos by (subst bit_length.simps) simp
    then obtain k where k: "bit_length (n div 2) = Suc k" by (cases "bit_length (n div 2)") auto
    have "2 * 2 ^ k \<le> n" using ih k by simp presburger
    moreover have "n < 2 * 2 ^ Suc k" using ih k by simp presburger
    ultimately show ?thesis by (simp add: bl k)
  qed
qed

lemma round_even_error: "\<bar>of_int (round_even t) - t\<bar> \<le> 1 / 2"
  unfolding round_even_def Let_def
  by (auto simp: abs_le_iff)

lemma round_even_nonneg: "0 \<le> t \<Longrightarrow> 0 \<le> round_even t"
  unfolding round_even_def Let_def
  by (auto intro: add_nonneg_nonneg)

lemma binade_lower:
  assumes "0 < x"
  shows "2 powi (binade x) \<le> x"
proof (cases "1 \<le> x")
  case True
  define n where "n = nat \<lfloor>x\<rfloor>"
  have npos: "0 < n" using True by (simp add: n_def)
  have "2 ^ (bit_length n - 1) \<le> n" using bit_length_bounds [OF npos] by simp
  then have "(2::real) ^ (bit_length n - 1) \<le> real n"
    by (metis of_nat_le_iff of_nat_numeral of_nat_power)
  also have "real n \<le> x" using True by (simp add: n_def)
  finally have le: "(2::real) ^ (bit_length n - 1) \<le> x" .
  have blpos: "0 < bit_length n" using npos by (subst bit_length.simps) simp
  then have "binade x = int (bit_length n - 1)"
    using True by (simp add: binade_def n_def)
  then show ?thesis using le by simp
next
  case False
  then have x1: "x < 1" by simp
  define m where "m = nat (\<lceil>1 / x\<rceil> - 1)"
  have "1 < 1 / x" using assms x1 by simp
  then have c2: "2 \<le> \<lceil>1 / x\<rceil>" by linarith
  then have mpos: "0 < m" by (simp add: m_def)
  have "m < 2 ^ bit_length m" using bit_length_bounds [OF mpos] by simp
  then have "m + 1 \<le> 2 ^ bit_length m" by simp
  then have "real (m + 1) \<le> (2::real) ^ bit_length m"
    by (metis of_nat_le_iff of_nat_numeral of_nat_power)
  moreover have "1 / x \<le> real (m + 1)"
    using c2 unfolding m_def by (simp add: le_of_int_ceiling) linarith       
  ultimately have "1 / x \<le> 2 ^ bit_length m" by linarith
  then have "1 / 2 ^ bit_length m \<le> x"
    using assms by (simp add: field_simps)
  moreover have "binade x = - int (bit_length m)"
    using False by (simp add: binade_def m_def)
  ultimately show ?thesis
    by (simp add: power_int_minus field_simps)
qed


lemma fl_nonneg: "0 \<le> x \<Longrightarrow> 0 \<le> fl x"
  unfolding fl_def Let_def
  by (auto simp: sgn_if intro!: mult_nonneg_nonneg round_even_nonneg divide_nonneg_nonneg)

lemma fl_error:
  assumes "0 \<le> x" and "x < 256"
  shows "\<bar>fl x - x\<bar> \<le> 1 / 2 ^ 46"
proof (cases "x = 0")
  case True
  then show ?thesis by (simp add: fl_def)
next
  case False
  then have xpos: "0 < x" using assms(1) by simp
  define e where "e = max (binade \<bar>x\<bar>) (- 1022)"
  define u :: real where "u = 2 powi (e - 52)"
  have "2 powi (binade x) \<le> x" by (rule binade_lower [OF xpos])
  also have "x < 2 powi 8" using assms(2) by simp
  finally have "(2::real) powi (binade x) < 2 powi 8" .
  then have "binade x < 8" by (rule power_int_le_imp_less_exp [rotated]) simp_all
  then have e7: "e - 52 \<le> - 45" using xpos by (simp add: e_def)
  have upos: "0 < u" by (simp add: u_def)
  have "u \<le> 2 powi (- 45)"
    unfolding u_def by (rule power_int_increasing [OF e7]) simp
  then have ule: "u \<le> 1 / 2 ^ 45" by (simp add: power_int_minus field_simps)
  have flx: "fl x = u * of_int (round_even (x / u))"
    using xpos by (simp add: fl_def Let_def e_def u_def)
  have "\<bar>fl x - x\<bar> = u * \<bar>of_int (round_even (x / u)) - x / u\<bar>"
  proof -
    have "fl x - x = u * (of_int (round_even (x / u)) - x / u)"
      using upos by (simp add: flx field_simps)
    then show ?thesis using upos by (simp add: abs_mult)
  qed
  also have "\<dots> \<le> u * (1 / 2)"
    using upos round_even_error [of "x / u"] by (intro mult_left_mono) simp_all
  also have "\<dots> \<le> 1 / 2 ^ 45 * (1 / 2)" using ule by simp
  finally show ?thesis by simp
qed



lemma fl_299: "fl 0.299 = 5386305154335113 / 18014398509481984"
  by code_simp

lemma fl_587: "fl 0.587 = 2643612981266481 / 4503599627370496"
  by code_simp

lemma fl_114: "fl 0.114 = 8214565720323785 / 72057594037927936"
  by code_simp

lemma scale_error:
  fixes c w r d :: real
  assumes "0 \<le> r" and "r \<le> 255" and "\<bar>c - w\<bar> \<le> d"
  shows "\<bar>c * r - w * r\<bar> \<le> d * 255"
proof -
  have "c * r - w * r = (c - w) * r" by (simp add: algebra_simps)
  then have "\<bar>c * r - w * r\<bar> = \<bar>c - w\<bar> * r" using assms(1) by (simp add: abs_mult)
  also have "\<dots> \<le> d * 255"
    using assms by (intro mult_mono) simp_all
  finally show ?thesis .
qed

lemma product_error:
  fixes c w r :: real
  assumes r: "0 \<le> r" "r \<le> 255"
    and c: "0 \<le> c" "c \<le> 1" "\<bar>c - w\<bar> \<le> 1 / 2 ^ 54"
  shows "\<bar>fl (c * r) - w * r\<bar> \<le> 2 / 2 ^ 46 \<and> 0 \<le> fl (c * r)"
proof -
  have nn: "0 \<le> c * r" using r(1) c(1) by simp
  have "c * r \<le> 1 * 255" using r c by (intro mult_mono) simp_all
  then have lt: "c * r < 256" by simp
  have e: "\<bar>fl (c * r) - c * r\<bar> \<le> 1 / 2 ^ 46" by (rule fl_error [OF nn lt])
  have "\<bar>c * r - w * r\<bar> \<le> 1 / 2 ^ 54 * 255" by (rule scale_error [OF r c(3)])
  also have "\<dots> \<le> 1 / 2 ^ 46" by simp
  finally have m: "\<bar>c * r - w * r\<bar> \<le> 1 / 2 ^ 46" .
  have "\<bar>fl (c * r) - w * r\<bar> \<le> \<bar>fl (c * r) - c * r\<bar> + \<bar>c * r - w * r\<bar>" by linarith
  also have "\<dots> \<le> 1 / 2 ^ 46 + 1 / 2 ^ 46" using e m by (rule add_mono)
  finally have "\<bar>fl (c * r) - w * r\<bar> \<le> 2 / 2 ^ 46" by simp
  then show ?thesis using fl_nonneg [OF nn] by simp
qed

lemma c299: "0 \<le> fl 0.299" "fl 0.299 \<le> 1" "\<bar>fl 0.299 - 0.299\<bar> \<le> 1 / 2 ^ 54"
  unfolding fl_299 by (simp_all add: abs_le_iff)

lemma c587: "0 \<le> fl 0.587" "fl 0.587 \<le> 1" "\<bar>fl 0.587 - 0.587\<bar> \<le> 1 / 2 ^ 54"
  unfolding fl_587 by (simp_all add: abs_le_iff)

lemma c114: "0 \<le> fl 0.114" "fl 0.114 \<le> 1" "\<bar>fl 0.114 - 0.114\<bar> \<le> 1 / 2 ^ 54"
  unfolding fl_114 by (simp_all add: abs_le_iff)

lemma weighted_sum_error:
  fixes r g b :: real
  assumes "0 \<le> r" "r \<le> 255" "0 \<le> g" "g \<le> 255" "0 \<le> b" "b \<le> 255"
  shows "\<bar>double_add (double_add (double_mul (fl 0.299) r) (double_mul (fl 0.587) g))
            (double_mul (fl 0.114) b)
          - (0.299 * r + 0.587 * g + 0.114 * b)\<bar> \<le> 1 / 2 ^ 43"
proof -
  define d :: real where "d = 1 / 2 ^ 46"
  define P1 where "P1 = fl (fl 0.299 * r)"
  define P2 where "P2 = fl (fl 0.587 * g)"
  define P3 where "P3 = fl (fl 0.114 * b)"
  define T where "T = fl (P1 + P2)"
  define S where "S = fl (T + P3)"
  define w1 :: real where "w1 = 0.299 * r"
  define w2 :: real where "w2 = 0.587 * g"
  define w3 :: real where "w3 = 0.114 * b"
  have d: "0 < d" "d \<le> 1 / 1000" "2 / 2 ^ 46 = 2 * d" "1 / 2 ^ 46 = d" "1 / 2 ^ 43 = 8 * d"
    by (simp_all add: d_def)
  have p1: "\<bar>P1 - w1\<bar> \<le> 2 * d \<and> 0 \<le> P1"
    unfolding P1_def w1_def d(3) [symmetric]
    by (rule product_error [OF assms(1,2) c299])
  have p2: "\<bar>P2 - w2\<bar> \<le> 2 * d \<and> 0 \<le> P2"
    unfolding P2_def w2_def d(3) [symmetric]
    by (rule product_error [OF assms(3,4) c587])
  have p3: "\<bar>P3 - w3\<bar> \<le> 2 * d \<and> 0 \<le> P3"
    unfolding P3_def w3_def d(3) [symmetric]
    by (rule product_error [OF assms(5,6) c114])
  have w: "0 \<le> w1" "w1 \<le> 76245 / 1000" "0 \<le> w2" "w2 \<le> 149685 / 1000" "0 \<le> w3" "w3 \<le> 2907 / 100"
    using assms by (simp_all add: w1_def w2_def w3_def)
  have s12: "0 \<le> P1 + P2" "P1 + P2 < 256"
    using p1 p2 w d(1,2) by linarith+
  have eT: "\<bar>T - (P1 + P2)\<bar> \<le> d" "0 \<le> T"
    unfolding T_def d(4) [symmetric]
    by (rule fl_error [OF s12], rule fl_nonneg [OF s12(1)])
  have sT: "0 \<le> T + P3" "T + P3 < 256"
    using eT p1 p2 p3 w d(1,2) by linarith+
  have eS: "\<bar>S - (T + P3)\<bar> \<le> d"
    unfolding S_def d(4) [symmetric] by (rule fl_error [OF sT])
  have "\<bar>S - (w1 + w2 + w3)\<bar> \<le> 8 * d"
    using eS eT(1) p1 p2 p3 d(1) by linarith
  then show ?thesis
    unfolding d(5) [symmetric] S_def T_def P1_def P2_def P3_def w1_def w2_def w3_def
      double_add_def double_mul_def .
qed

lemma round_near:
  fixes K :: int and S :: real
  assumes "\<bar>S - of_int K / 1000\<bar> \<le> 1 / 2 ^ 43"
  shows "(K mod 1000 \<noteq> 500 \<longrightarrow> \<lfloor>S + 1 / 2\<rfloor> = round (of_int K / 1000 :: real))
       \<and> (\<lfloor>S + 1 / 2\<rfloor> = round (of_int K / 1000 :: real)
          \<or> \<lfloor>S + 1 / 2\<rfloor> = round (of_int K / 1000 :: real) - 1)"
proof -
  define n where "n = (K + 500) div 1000"
  define m where "m = (K + 500) mod 1000"
  have km: "K + 500 = 1000 * n + m" "0 \<le> m" "m < 1000"
    by (simp_all add: n_def m_def)
  have rn: "round (of_int K / 1000 :: real) = n"
  proof -
    have "of_int K / 1000 + 1 / 2 = (of_int (K + 500) :: real) / of_int 1000" by simp
    then have "round (of_int K / 1000 :: real) = \<lfloor>(of_int (K + 500) :: real) / of_int 1000\<rfloor>"
      by (simp only: round_def)
    also have "\<dots> = (K + 500) div 1000" by (rule floor_divide_of_int_eq)
    finally show ?thesis by (simp add: n_def)
  qed
  have Kr: "(of_int K :: real) = 1000 * of_int n + of_int m - 500"
  proof -
    have "(of_int (K + 500) :: real) = of_int (1000 * n + m)" using km(1) by simp
    then show ?thesis by simp
  qed
  define eps :: real where "eps = 1 / 2 ^ 43"
  have eps: "0 < eps" "eps < 1 / 1000" by (simp_all add: eps_def)
  have Kq: "(of_int K :: real) / 1000 = of_int n + of_int m / 1000 - 1 / 2"
    unfolding Kr by simp
  have near: "S + 1 / 2 \<le> of_int n + of_int m / 1000 + eps"
             "of_int n + of_int m / 1000 - eps \<le> S + 1 / 2"
    using assms unfolding Kq eps_def [symmetric] by linarith+
  have mr: "0 \<le> (of_int m :: real) / 1000" "(of_int m :: real) / 1000 \<le> 999 / 1000"
    using km(2,3) by simp_all
  have lo: "of_int n - 1 \<le> S + 1 / 2" "S + 1 / 2 < of_int n + 1"
    using near mr eps by linarith+
  then have either: "\<lfloor>S + 1 / 2\<rfloor> = n \<or> \<lfloor>S + 1 / 2\<rfloor> = n - 1"
    by linarith
  have "\<lfloor>S + 1 / 2\<rfloor> = n" if "K mod 1000 \<noteq> 500"
  proof -
    have "K mod 1000 = ((K + 500) mod 1000 - 500) mod 1000"
      by (simp add: mod_diff_left_eq)
    then have "m \<noteq> 0" using that unfolding m_def by auto
    then have "1 \<le> m" using km(2) by simp
    then have "1 / 1000 \<le> (of_int m :: real) / 1000" by simp
    then have "of_int n \<le> S + 1 / 2"
      using near(2) eps by linarith
    then show ?thesis using lo(2) by linarith
  qed
  then show ?thesis using either by (simp add: rn)
qed

lemma byte_bounds: "0 \<le> byte w" "byte w \<le> 255"
proof -
  have "unat w < 2 ^ 8" using unsigned_less [of w, where ?'a = nat] by simp
  then have "unat w \<le> 255" by simp
  then have "real (unat w) \<le> real 255" by (simp only: of_nat_le_iff)
  then show "byte w \<le> 255" by (simp only: byte_def of_nat_numeral)
  show "0 \<le> byte w" by (simp only: byte_def of_nat_0_le_iff)
qed

lemma pixel_index:
  assumes "y < sz" and "x < sz" and "4 * sz * sz \<le> length data"
  shows "4 * (y * sz + x) + 2 < length data"
proof -
  have "y * sz + x < y * sz + sz" using assms(2) by simp
  also have "\<dots> = (y + 1) * sz" by simp
  also have "\<dots> \<le> sz * sz" using assms(1) by (intro mult_le_mono1) simp
  finally have "y * sz + x < sz * sz" .
  then show ?thesis using assms(3) by simp
qed

lemma grayscale_entry:
  assumes "y < sz" and "x < sz" and "4 * sz * sz \<le> length data"
  shows "imageDataToGrayscaleMatrix data sz ! y ! x =
           Some (Math_round
                   (double_add
                      (double_add (double_mul (fl 0.299) (byte (data ! (4 * (y * sz + x)))))
                                  (double_mul (fl 0.587) (byte (data ! (4 * (y * sz + x) + 1)))))
                      (double_mul (fl 0.114) (byte (data ! (4 * (y * sz + x) + 2))))))"
  using pixel_index [OF assms] assms(1,2)
  by (simp add: imageDataToGrayscaleMatrix_def grayscale_pixel_def Let_def mult.commute)

lemma script_entry:
  assumes "y < N" and "x < N" and "4 * N * N \<le> length img" and "acc ! y ! x = Some a"
  shows "script_accumulate N img acc ! y ! x =
           Some (double_add a
                   (double_div
                      (double_add (double_add (byte (img ! (4 * (y * N + x))))
                                              (byte (img ! (4 * (y * N + x) + 1))))
                                  (byte (img ! (4 * (y * N + x) + 2))))
                      3))"
  using pixel_index [OF assms(1-3)] assms(1,2,4)
  by (simp add: script_accumulate_def script_gray_def Let_def)

lemma script_average_entry:
  assumes "y < length acc" and "x < length (acc ! y)"
  shows "script_average acc captured ! y ! x
           = map_option (\<lambda>v. double_div v (real captured)) (acc ! y ! x)"
  using assms by (simp add: script_average_def)

lemma length_script_accumulate:
  "length (script_accumulate N img acc) = N"
  "y < N \<Longrightarrow> length (script_accumulate N img acc ! y) = N"
  by (simp_all add: script_accumulate_def)

lemma weighted_sum_thousandths:
  "0.299 * byte r + 0.587 * byte g + 0.114 * byte b
     = real_of_int (int (299 * unat r + 587 * unat g + 114 * unat b)) / 1000"
  by (simp add: byte_def)

lemma stored_intensity:
  fixes r g b :: "8 word"
  defines "s \<equiv> Math_round
                   (double_add (double_add (double_mul (fl 0.299) (byte r))
                                           (double_mul (fl 0.587) (byte g)))
                      (double_mul (fl 0.114) (byte b)))"
  shows "((299 * unat r + 587 * unat g + 114 * unat b) mod 1000 \<noteq> 500 \<longrightarrow>
            s = round (0.299 * byte r + 0.587 * byte g + 0.114 * byte b))
       \<and> (s = round (0.299 * byte r + 0.587 * byte g + 0.114 * byte b)
          \<or> s = round (0.299 * byte r + 0.587 * byte g + 0.114 * byte b) - 1)"
proof -
  define K where "K = int (299 * unat r + 587 * unat g + 114 * unat b)"
  have W: "0.299 * byte r + 0.587 * byte g + 0.114 * byte b = real_of_int K / 1000"
    unfolding K_def by (rule weighted_sum_thousandths)
  have tie: "K mod 1000 = int ((299 * unat r + 587 * unat g + 114 * unat b) mod 1000)"
    unfolding K_def by (simp add: zmod_int)
  have "\<bar>double_add (double_add (double_mul (fl 0.299) (byte r)) (double_mul (fl 0.587) (byte g)))
            (double_mul (fl 0.114) (byte b)) - real_of_int K / 1000\<bar> \<le> 1 / 2 ^ 43"
    unfolding W [symmetric] by (rule weighted_sum_error) (rule byte_bounds)+
  from round_near [OF this] show ?thesis
    unfolding s_def Math_round_def W tie by simp
qed

text \<open>
  Claim C8, as stated, fails. The content script accumulates the mean of the three
  channels without weights: for a frame whose first pixel is pure red, the accumulator
  (from zero) holds 85 at that pixel, and so does the matrix averaged over that one
  captured frame, where the luminance weights give 76. And
  \<open>imageDataToGrayscaleMatrix\<close> rounds the sum of doubles: for the pixel (0, 36, 12)
  the weighted sum is 22.5 and rounds to 23, and the matrix holds 22.
\<close>

theorem C8_grayscale_counterexample:
  "script_accumulate 32 ([255, 0, 0, 255] @ replicate 4092 0)
       (replicate 32 (replicate 32 (Some 0))) ! 0 ! 0 = Some 85
   \<and> script_average (script_accumulate 32 ([255, 0, 0, 255] @ replicate 4092 0)
       (replicate 32 (replicate 32 (Some 0)))) 1 ! 0 ! 0 = Some 85
   \<and> round (0.299 * byte 255 + 0.587 * byte 0 + 0.114 * byte 0) = 76
   \<and> imageDataToGrayscaleMatrix ([0, 36, 12, 255] @ replicate 4092 0) 32 ! 0 ! 0 = Some 22
   \<and> round (0.299 * byte 0 + 0.587 * byte 36 + 0.114 * byte 12) = 23"
proof -
  let ?acc = "script_accumulate 32 ([255, 0, 0, 255] @ replicate 4092 0)
          (replicate 32 (replicate 32 (Some 0)))"
  have mean: "double_add 0 (double_div (double_add (double_add 255 0) 0) 3) = 85"
    by code_simp
  have one: "double_div 85 1 = 85"
    by code_simp
  have lum: "Math_round (double_add (double_add (double_mul (fl 0.299) 0) (double_mul (fl 0.587) 36))
               (double_mul (fl 0.114) 12)) = 22"
    by code_simp
  have acc: "?acc ! 0 ! 0 = Some 85"
    by (subst script_entry [where a = 0]) (simp_all add: byte_def mean)
  have eq: "script_average ?acc 1 ! 0 ! 0 = map_option (\<lambda>v. double_div v (real 1)) (?acc ! 0 ! 0)"
    by (rule script_average_entry) (simp_all add: length_script_accumulate)
  have avg: "script_average ?acc 1 ! 0 ! 0 = Some 85"
    unfolding eq acc by (simp add: one)
  have red: "round (0.299 * byte 255 + 0.587 * byte 0 + 0.114 * byte 0) = 76"
    by (simp add: byte_def round_def)
  have i: "([0, 36, 12, 255] @ replicate 4092 0) ! (4 * (0 * 32 + 0)) = (0::8 word)"
          "([0, 36, 12, 255] @ replicate 4092 0) ! (4 * (0 * 32 + 0) + 1) = (36::8 word)"
          "([0, 36, 12, 255] @ replicate 4092 0) ! (4 * (0 * 32 + 0) + 2) = (12::8 word)"
    by simp_all
  have v: "byte 0 = 0" "byte 36 = 36" "byte 12 = 12"
    by (simp_all add: byte_def)
  have "imageDataToGrayscaleMatrix ([0, 36, 12, 255] @ replicate 4092 0) 32 ! 0 ! 0
          = Some (Math_round (double_add (double_add (double_mul (fl 0.299) 0) (double_mul (fl 0.587) 36))
               (double_mul (fl 0.114) 12)))"
    using grayscale_entry [of 0 32 0 "[0, 36, 12, 255] @ replicate 4092 0"]
    unfolding i v by simp
  then have gray: "imageDataToGrayscaleMatrix ([0, 36, 12, 255] @ replicate 4092 0) 32 ! 0 ! 0 = Some 22"
    unfolding lum .
  have tie: "round (0.299 * byte 0 + 0.587 * byte 36 + 0.114 * byte 12) = 23"
    by (simp add: byte_def round_def)
  show ?thesis using acc avg red gray tie by simp
qed

text \<open>
  Claim C8, amended. \<open>VideoUtils.imageDataToGrayscaleMatrix\<close> stores, for every pixel
  \<open>(r, g, b)\<close> of the image, \<open>Math.round\<close> of the sum \<open>0.299 r + 0.587 g + 0.114 b\<close>
  computed in doubles. That intensity is \<open>round (0.299 r + 0.587 g + 0.114 b)\<close> unless
  the exact weighted sum lies halfway between two integers, and then it is that number
  or one less. The accumulation loop of the content script adds the quotient
  \<open>(r + g + b) / 3\<close>, computed in doubles, to the accumulator instead.
\<close>

theorem C8_grayscale_weights:
  assumes "y < sz" and "x < sz" and "4 * sz * sz \<le> length data"
    and "r = data ! (4 * (y * sz + x))"
    and "g = data ! (4 * (y * sz + x) + 1)"
    and "b = data ! (4 * (y * sz + x) + 2)"
  shows "(\<exists>s. imageDataToGrayscaleMatrix data sz ! y ! x = Some s
           \<and> s = Math_round (double_add (double_add (double_mul (fl 0.299) (byte r))
                                                     (double_mul (fl 0.587) (byte g)))
                                (double_mul (fl 0.114) (byte b)))
           \<and> ((299 * unat r + 587 * unat g + 114 * unat b) mod 1000 \<noteq> 500 \<longrightarrow>
                 s = round (0.299 * byte r + 0.587 * byte g + 0.114 * byte b))
           \<and> (s = round (0.299 * byte r + 0.587 * byte g + 0.114 * byte b)
              \<or> s = round (0.299 * byte r + 0.587 * byte g + 0.114 * byte b) - 1))
       \<and> (acc ! y ! x = Some a \<longrightarrow>
           script_accumulate sz data acc ! y ! x =
             Some (double_add a (double_div (double_add (double_add (byte r) (byte g)) (byte b)) 3)))"
proof (intro conjI impI)
  show "\<exists>s. imageDataToGrayscaleMatrix data sz ! y ! x = Some s
           \<and> s = Math_round (double_add (double_add (double_mul (fl 0.299) (byte r))
                                                     (double_mul (fl 0.587) (byte g)))
                                (double_mul (fl 0.114) (byte b)))
           \<and> ((299 * unat r + 587 * unat g + 114 * unat b) mod 1000 \<noteq> 500 \<longrightarrow>
                 s = round (0.299 * byte r + 0.587 * byte g + 0.114 * byte b))
           \<and> (s = round (0.299 * byte r + 0.587 * byte g + 0.114 * byte b)
              \<or> s = round (0.299 * byte r + 0.587 * byte g + 0.114 * byte b) - 1)"
    using grayscale_entry [OF assms(1-3)] stored_intensity [of r g b]
    unfolding assms(4-6) by blast
next
  assume "acc ! y ! x = Some a"
  then show "script_accumulate sz data acc ! y ! x =
             Some (double_add a (double_div (double_add (double_add (byte r) (byte g)) (byte b)) 3))"
    using script_entry [OF assms(1-3)] unfolding assms(4-6) by blast
qed

theorem C8_grayscale_weights_witness:
  "(0::nat) < 32 \<and> 4 * 32 * 32 \<le> length ([255, 0, 0, 255] @ replicate 4092 (0::8 word))
   \<and> ([255, 0, 0, 255] @ replicate 4092 (0::8 word)) ! (4 * (0 * 32 + 0)) = 255
   \<and> ([255, 0, 0, 255] @ replicate 4092 (0::8 word)) ! (4 * (0 * 32 + 0) + 1) = 0
   \<and> ([255, 0, 0, 255] @ replicate 4092 (0::8 word)) ! (4 * (0 * 32 + 0) + 2) = 0
   \<and> (299 * unat (255::8 word) + 587 * unat (0::8 word) + 114 * unat (0::8 word)) mod 1000 \<noteq> 500
   \<and> replicate 32 (replicate 32 (Some (0::real))) ! 0 ! 0 = Some 0
   \<and> imageDataToGrayscaleMatrix ([255, 0, 0, 255] @ replicate 4092 0) 32 ! 0 ! 0 = Some 76
   \<and> script_accumulate 32 ([255, 0, 0, 255] @ replicate 4092 0)
        (replicate 32 (replicate 32 (Some 0))) ! 0 ! 0 = Some 85"
proof -
  let ?data = "[255, 0, 0, 255] @ replicate 4092 (0::8 word)"
  let ?acc = "replicate 32 (replicate 32 (Some (0::real)))"
  have i: "?data ! (4 * (0 * 32 + 0)) = 255" "?data ! (4 * (0 * 32 + 0) + 1) = 0"
    "?data ! (4 * (0 * 32 + 0) + 2) = 0"
    by simp_all
  have h: "(0::nat) < 32" "4 * 32 * 32 \<le> length ?data" by simp_all
  have notie: "(299 * unat (255::8 word) + 587 * unat (0::8 word) + 114 * unat (0::8 word))
                 mod 1000 \<noteq> 500"
    by simp
  have a0: "?acc ! 0 ! 0 = Some 0" by simp
  have w: "round (0.299 * byte 255 + 0.587 * byte 0 + 0.114 * byte 0) = 76"
    by (simp add: byte_def round_def)
  have mean: "double_add 0 (double_div (double_add (double_add (byte 255) (byte 0)) (byte 0)) 3) = 85"
    unfolding byte_def by code_simp
  note inst = C8_grayscale_weights [OF h(1) h(1) h(2) i [symmetric], of ?acc 0]
  from inst notie w have gray: "imageDataToGrayscaleMatrix ?data 32 ! 0 ! 0 = Some 76"
    by auto
  from inst a0 mean have mean85: "script_accumulate 32 ?data ?acc ! 0 ! 0 = Some 85"
    by auto
  show ?thesis using h i notie a0 gray mean85 by blast
qed

section \<open>Properties of the concurrency queue\<close>

lemma length_set_add: "length (set_add x xs) \<le> Suc (length xs)"
  by (simp add: set_add_def)

lemma length_set_delete: "length (set_delete x xs) \<le> length xs"
  by (simp add: set_delete_def removeAll_filter_not_eq)

lemma start_sizes_append:
  "List.map_filter started_size (l @ [e]) =
     List.map_filter started_size l @ (case started_size e of None \<Rightarrow> [] | Some n \<Rightarrow> [n])"
  by (simp add: List.map_filter_def split: option.splits)

lemma processQueue_maxConcurrent: "maxConcurrent (processQueue q) = maxConcurrent q"
proof (induction q rule: processQueue.induct)
  case (1 q)
  show ?case
  proof (cases "int (length (activeJobs q)) < maxConcurrent q \<and> pendingJobs q \<noteq> []")
    case True
    then show ?thesis using 1 by (subst processQueue.simps) (simp add: executeJob_start_def Let_def)
  next
    case False
    then show ?thesis by (subst processQueue.simps) auto
  qed
qed

lemma processQueue_capacity: "capacity_ok q \<Longrightarrow> capacity_ok (processQueue q)"
proof (induction q rule: processQueue.induct)
  case (1 q)
  show ?case
  proof (cases "int (length (activeJobs q)) < maxConcurrent q \<and> pendingJobs q \<noteq> []")
    case True
    let ?q1 = "executeJob_start (hd (pendingJobs q))
             (q\<lparr> pendingJobs := tl (pendingJobs q), queuedJobs := queuedJobs q - 1 \<rparr>)"
    have len: "length (set_add (hd (pendingJobs q)) (activeJobs q)) \<le> Suc (length (activeJobs q))"
      by (rule length_set_add)
    have "capacity_ok ?q1"
      using True "1.prems" len
      by (simp add: capacity_ok_def executeJob_start_def Let_def start_sizes_def start_sizes_append)
    then have "capacity_ok (processQueue ?q1)" using "1.IH" True by simp
    then show ?thesis using True by (subst processQueue.simps) simp
  next
    case False
    then show ?thesis using "1.prems" by (subst processQueue.simps) auto
  qed
qed

lemma enqueue_capacity: "capacity_ok q \<Longrightarrow> capacity_ok (enqueue i p q)"
  unfolding enqueue_def Let_def
  by (rule processQueue_capacity) (simp add: capacity_ok_def start_sizes_def start_sizes_append)

lemma settle_capacity: "capacity_ok q \<Longrightarrow> capacity_ok (settle j out q)"
proof (cases "j \<in> set (activeJobs q)")
  case False
  then show "capacity_ok q \<Longrightarrow> capacity_ok (settle j out q)" by (simp add: settle_def)
next
  case True
  assume ok: "capacity_ok q"
  have len: "length (set_delete j (activeJobs q)) \<le> length (activeJobs q)"
    by (rule length_set_delete)
  show "capacity_ok (settle j out q)"
    using True unfolding settle_def Let_def
    apply (simp only: if_False not_True_eq_False not_not if_True)
    apply (rule processQueue_capacity)
    using ok len
    apply (cases out)
    apply (simp_all add: capacity_ok_def start_sizes_def start_sizes_append)
    done
qed

lemma run_capacity: "capacity_ok q \<Longrightarrow> capacity_ok (run evs q)"
  unfolding run_def
proof (induction evs arbitrary: q)
  case Nil
  then show ?case by simp
next
  case (Cons e evs)
  have "capacity_ok (apply_event q e)"
    using Cons.prems by (cases e) (simp_all add: enqueue_capacity settle_capacity)
  then show ?case using Cons.IH by simp
qed

lemma run_maxConcurrent: "maxConcurrent (run evs q) = maxConcurrent q"
  unfolding run_def
proof (induction evs arbitrary: q)
  case Nil
  then show ?case by simp
next
  case (Cons e evs)
  have "maxConcurrent (apply_event q e) = maxConcurrent q"
    by (cases e) (auto simp: enqueue_def settle_def Let_def processQueue_maxConcurrent split: outcome.splits)
  then show ?case using Cons.IH by simp
qed

text \<open>
  Claim C1. Starting from a new queue, after any sequence of \<open>enqueue\<close> calls and
  settlements of jobs, the active set holds at most \<open>maxConcurrent\<close> jobs, and so did
  it at every start of a job: each logged start records an active-set size of at most
  \<open>maxConcurrent\<close>, which is still \<open>MAX_CONCURRENT\<close>. The active set grows only at a
  start, so these are all the points at which the bound could break.
\<close>

theorem C1_capacity:
  "int (length (activeJobs (run evs new_queue))) \<le> maxConcurrent (run evs new_queue)
   \<and> list_all (\<lambda>n. int n \<le> maxConcurrent (run evs new_queue)) (start_sizes (run evs new_queue))
   \<and> maxConcurrent (run evs new_queue) = MAX_CONCURRENT"
proof -
  have "capacity_ok new_queue"
    by (simp add: capacity_ok_def new_queue_def MAX_CONCURRENT_def start_sizes_def List.map_filter_def)
  then have "capacity_ok (run evs new_queue)" by (rule run_capacity)
  moreover have "maxConcurrent (run evs new_queue) = MAX_CONCURRENT"
    by (simp add: run_maxConcurrent new_queue_def)
  ultimately show ?thesis by (simp add: capacity_ok_def)
qed

theorem C1_capacity_witness:
  "length (activeJobs (run [Enqueue ''a'' 0, Enqueue ''b'' 2, Enqueue ''c'' 1, Enqueue ''d'' 0,
                            Enqueue ''e'' 7] new_queue)) = 3
   \<and> start_sizes (run [Enqueue ''a'' 0, Enqueue ''b'' 2, Enqueue ''c'' 1, Enqueue ''d'' 0,
                        Enqueue ''e'' 7] new_queue) = [1, 2, 3]
   \<and> maxConcurrent (run [Enqueue ''a'' 0, Enqueue ''b'' 2, Enqueue ''c'' 1, Enqueue ''d'' 0,
                          Enqueue ''e'' 7] new_queue) = 3"
proof -
  let ?q = "run [Enqueue ''a'' 0, Enqueue ''b'' 2, Enqueue ''c'' 1, Enqueue ''d'' 0,
                 Enqueue ''e'' 7] new_queue"
  have "length (activeJobs ?q) = 3" by code_simp
  moreover have "start_sizes ?q = [1, 2, 3]" by code_simp
  moreover have "maxConcurrent ?q = 3"
    using C1_capacity [of "[Enqueue ''a'' 0, Enqueue ''b'' 2, Enqueue ''c'' 1, Enqueue ''d'' 0,
                 Enqueue ''e'' 7]"] by (simp add: MAX_CONCURRENT_def)
  ultimately show ?thesis by simp
qed

lemma findIndex_none: "findIndex P xs = - 1 \<longleftrightarrow> \<not> list_ex P xs"
proof (induction xs)
  case Nil
  then show ?case by simp
next
  case (Cons x xs)
  have "0 \<le> findIndex P xs \<or> findIndex P xs = - 1"
    by (induction xs) (auto simp: Let_def)
  then show ?case using Cons by (auto simp: Let_def)
qed

lemma findIndex_ge: "findIndex P xs = - 1 \<or> 0 \<le> findIndex P xs"
  by (induction xs) (auto simp: Let_def)

lemma findIndex_takeWhile:
  "list_ex P xs \<Longrightarrow> findIndex P xs = int (length (takeWhile (\<lambda>x. \<not> P x) xs))"
proof (induction xs)
  case Nil
  then show ?case by simp
next
  case (Cons x xs)
  show ?case
  proof (cases "P x")
    case True
    then show ?thesis by simp
  next
    case False
    then have ex: "list_ex P xs" using Cons.prems by simp
    then have "findIndex P xs \<noteq> - 1" by (simp add: findIndex_none)
    then show ?thesis using False Cons.IH [OF ex] by (simp add: Let_def)
  qed
qed

lemma insert_by_priority_split:
  "insert_by_priority job pending =
     takeWhile (\<lambda>j. \<not> priority j < priority job) pending
       @ job # dropWhile (\<lambda>j. \<not> priority j < priority job) pending"
proof (cases "list_ex (\<lambda>j. priority j < priority job) pending")
  case True
  let ?P = "\<lambda>j. \<not> priority j < priority job"
  have found: "findIndex (\<lambda>j. priority j < priority job) pending \<noteq> - 1"
    using True by (simp add: findIndex_none)
  have idx: "nat (findIndex (\<lambda>j. priority j < priority job) pending) = length (takeWhile ?P pending)"
    using findIndex_takeWhile [OF True] by simp
  have "take (length (takeWhile ?P pending)) pending = takeWhile ?P pending"
    by (rule takeWhile_eq_take [symmetric])
  moreover have "drop (length (takeWhile ?P pending)) pending = dropWhile ?P pending"
    by (rule dropWhile_eq_drop [symmetric])
  ultimately show ?thesis
    using found by (simp add: insert_by_priority_def Let_def splice_insert_def idx)
next
  case False
  then have none: "findIndex (\<lambda>j. priority j < priority job) pending = - 1"
    by (simp add: findIndex_none)
  have "\<forall>j \<in> set pending. \<not> priority j < priority job"
    using False by (simp add: list_ex_iff)
  then have tw: "takeWhile (\<lambda>j. \<not> priority j < priority job) pending = pending"
    "dropWhile (\<lambda>j. \<not> priority j < priority job) pending = []"
    by simp_all
  show ?thesis by (simp add: insert_by_priority_def Let_def none tw)
qed

lemma sorted_desc_takeWhile_filter:
  "sorted_wrt (\<ge>) (map priority ps) \<Longrightarrow>
     takeWhile (\<lambda>j. \<not> priority j < p) ps = filter (\<lambda>j. p \<le> priority j) ps
     \<and> dropWhile (\<lambda>j. \<not> priority j < p) ps = filter (\<lambda>j. priority j < p) ps"
proof (induction ps)
  case Nil
  then show ?case by simp
next
  case (Cons a ps)
  show ?case
  proof (cases "priority a < p")
    case True
    then have "\<forall>j \<in> set ps. priority j < p" using Cons.prems by auto
    then have "filter (\<lambda>j. p \<le> priority j) ps = []" "filter (\<lambda>j. priority j < p) ps = ps"
      by (auto simp: filter_empty_conv filter_id_conv)
    then show ?thesis using True by simp
  next
    case False
    then show ?thesis using Cons by (simp add: not_less)
  qed
qed

lemma insert_by_priority_stable:
  assumes "sorted_wrt (\<ge>) (priorities pending)"
  shows "insert_by_priority job pending =
           filter (\<lambda>j. priority job \<le> priority j) pending
             @ job # filter (\<lambda>j. priority j < priority job) pending"
  using sorted_desc_takeWhile_filter [of pending "priority job"] assms
  by (simp add: insert_by_priority_split priorities_def)

lemma insert_by_priority_sorted:
  assumes "sorted_wrt (\<ge>) (priorities pending)"
  shows "sorted_wrt (\<ge>) (priorities (insert_by_priority job pending))"
proof -
  have "sorted_wrt (\<ge>) (map priority (filter (\<lambda>j. priority job \<le> priority j) pending
             @ job # filter (\<lambda>j. priority j < priority job) pending))"
    using assms
    by (induction pending) (auto simp: priorities_def sorted_wrt_append)
  then show ?thesis using assms by (simp add: insert_by_priority_stable priorities_def)
qed

lemma start_order_append:
  "List.map_filter started_id (l @ [e]) =
     List.map_filter started_id l @ (case started_id e of None \<Rightarrow> [] | Some n \<Rightarrow> [n])"
  by (simp add: List.map_filter_def split: option.splits)

lemma processQueue_front:
  "\<exists>n. pendingJobs (processQueue q) = drop n (pendingJobs q)
       \<and> start_order (processQueue q) = start_order q @ map jid (take n (pendingJobs q))"
proof (induction q rule: processQueue.induct)
  case (1 q)
  show ?case
  proof (cases "int (length (activeJobs q)) < maxConcurrent q \<and> pendingJobs q \<noteq> []")
    case True
    let ?q1 = "executeJob_start (hd (pendingJobs q))
             (q\<lparr> pendingJobs := tl (pendingJobs q), queuedJobs := queuedJobs q - 1 \<rparr>)"
    from "1.IH" True obtain n where n: "pendingJobs (processQueue ?q1) = drop n (pendingJobs ?q1)"
      "start_order (processQueue ?q1) = start_order ?q1 @ map jid (take n (pendingJobs ?q1))"
      by blast
    obtain j js where js: "pendingJobs q = j # js" using True by (cases "pendingJobs q") auto
    have p1: "pendingJobs ?q1 = js" by (simp add: executeJob_start_def Let_def js)
    have s1: "start_order ?q1 = start_order q @ [jid j]"
      by (simp add: executeJob_start_def Let_def js start_order_def start_order_append)
    have "pendingJobs (processQueue q) = drop (Suc n) (pendingJobs q)
       \<and> start_order (processQueue q) = start_order q @ map jid (take (Suc n) (pendingJobs q))"
      using True n p1 s1 by (subst (1 2) processQueue.simps) (simp add: js)
    then show ?thesis by blast
  next
    case False
    then have "processQueue q = q" by (subst processQueue.simps) auto
    then have "pendingJobs (processQueue q) = drop 0 (pendingJobs q)
       \<and> start_order (processQueue q) = start_order q @ map jid (take 0 (pendingJobs q))"
      by simp
    then show ?thesis by blast
  qed
qed

lemma processQueue_full:
  "maxConcurrent q \<le> int (length (activeJobs q)) \<Longrightarrow> processQueue q = q"
  by (subst processQueue.simps) auto

lemma enqueue_full:
  assumes "maxConcurrent q \<le> int (length (activeJobs q))"
  shows "pendingJobs (enqueue i p q) =
           insert_by_priority \<lparr> ref = created q, jid = i, priority = p \<rparr> (pendingJobs q)
         \<and> activeJobs (enqueue i p q) = activeJobs q
         \<and> maxConcurrent (enqueue i p q) = maxConcurrent q
         \<and> created (enqueue i p q) = created q + 1
         \<and> start_order (enqueue i p q) = start_order q"
  using assms
  by (simp add: enqueue_def Let_def processQueue_full start_order_def start_order_append)

lemma enqueue_sorted:
  assumes "sorted_wrt (\<ge>) (priorities (pendingJobs q))"
  shows "sorted_wrt (\<ge>) (priorities (pendingJobs (enqueue i p q)))"
proof -
  let ?job = "\<lparr> ref = created q, jid = i, priority = p \<rparr>"
  let ?q2 = "q\<lparr> created := created q + 1,
                 totalJobs := totalJobs q + 1,
                 queuedJobs := queuedJobs q + 1,
                 logged := logged q @
                   [JobEnqueued i p (length (pendingJobs q)) (length (activeJobs q))],
                 pendingJobs := insert_by_priority ?job (pendingJobs q) \<rparr>"
  have e: "enqueue i p q = processQueue ?q2" by (simp add: enqueue_def Let_def)
  obtain n where "pendingJobs (processQueue ?q2) = drop n (pendingJobs ?q2)"
    using processQueue_front [of ?q2] by blast
  then have "priorities (pendingJobs (enqueue i p q))
        = drop n (priorities (insert_by_priority ?job (pendingJobs q)))"
    by (simp add: e priorities_def drop_map)
  then show ?thesis
    using insert_by_priority_sorted [OF assms, of ?job] by (simp add: sorted_wrt_drop)
qed

lemma settle_sorted:
  assumes "sorted_wrt (\<ge>) (priorities (pendingJobs q))"
  shows "sorted_wrt (\<ge>) (priorities (pendingJobs (settle j out q)))"
proof (cases "j \<in> set (activeJobs q)")
  case False
  then show ?thesis using assms by (simp add: settle_def)
next
  case True
  define q2 where "q2 = (case out of
        Resolved \<Rightarrow>
          q\<lparr> completedJobs := completedJobs q + 1,
             logged := logged q @ [JobCompleted (jid j) (int (length (activeJobs q)) - 1)],
             activeJobs := set_delete j (activeJobs q) \<rparr>
      | Rejected msg \<Rightarrow>
          q\<lparr> failedJobs := failedJobs q + 1,
             logged := logged q @ [JobFailed (jid j) msg],
             activeJobs := set_delete j (activeJobs q) \<rparr>
      | TimedOut \<Rightarrow>
          q\<lparr> failedJobs := failedJobs q + 1,
             logged := logged q @ [JobFailed (jid j) ''Job timeout''],
             activeJobs := set_delete j (activeJobs q) \<rparr>)"
  have e: "settle j out q = processQueue q2"
    using True by (cases out) (simp_all add: settle_def q2_def Let_def)
  have p2: "pendingJobs q2 = pendingJobs q"
    by (cases out) (simp_all add: q2_def)
  obtain n where "pendingJobs (processQueue q2) = drop n (pendingJobs q2)"
    using processQueue_front [of q2] by blast
  then have "priorities (pendingJobs (settle j out q)) = drop n (priorities (pendingJobs q))"
    by (simp add: e p2 priorities_def drop_map)
  then show ?thesis using assms by (simp add: sorted_wrt_drop)
qed

lemma run_sorted:
  "sorted_wrt (\<ge>) (priorities (pendingJobs q)) \<Longrightarrow>
     sorted_wrt (\<ge>) (priorities (pendingJobs (run evs q)))"
  unfolding run_def
proof (induction evs arbitrary: q)
  case Nil
  then show ?case by simp
next
  case (Cons e evs)
  have "sorted_wrt (\<ge>) (priorities (pendingJobs (apply_event q e)))"
    using Cons.prems by (cases e) (simp_all add: enqueue_sorted settle_sorted)
  then show ?case using Cons.IH by simp
qed

lemma enqueue_full_pending:
  assumes "sorted_wrt (\<ge>) (priorities (pendingJobs q))"
    and "maxConcurrent q \<le> int (length (activeJobs q))"
  shows "pendingJobs (enqueue i p q) =
           filter (\<lambda>j. p \<le> priority j) (pendingJobs q)
             @ \<lparr> ref = created q, jid = i, priority = p \<rparr>
             # filter (\<lambda>j. priority j < p) (pendingJobs q)"
  using enqueue_full [OF assms(2), of i p] insert_by_priority_stable [OF assms(1)]
  by simp

lemma enqueue_four_full:
  assumes "maxConcurrent q \<le> int (length (activeJobs q))" and "pendingJobs q = []"
  shows "map (\<lambda>j. (jid j, priority j))
           (pendingJobs (enqueue d 3 (enqueue c 1 (enqueue b 5 (enqueue a 1 q)))))
         = [(b, 5), (d, 3), (a, 1), (c, 1)]"
proof -
  let ?q1 = "enqueue a 1 q"
  let ?q2 = "enqueue b 5 ?q1"
  let ?q3 = "enqueue c 1 ?q2"
  have f1: "maxConcurrent ?q1 \<le> int (length (activeJobs ?q1))"
    using enqueue_full [OF assms(1), of a 1] assms(1) by simp
  have f2: "maxConcurrent ?q2 \<le> int (length (activeJobs ?q2))"
    using enqueue_full [OF f1, of b 5] f1 by simp
  have f3: "maxConcurrent ?q3 \<le> int (length (activeJobs ?q3))"
    using enqueue_full [OF f2, of c 1] f2 by simp
  have p1: "map (\<lambda>j. (jid j, priority j)) (pendingJobs ?q1) = [(a, 1)]"
    using enqueue_full [OF assms(1), of a 1] assms(2)
    by (simp add: insert_by_priority_def)
  then obtain ja where ja: "pendingJobs ?q1 = [ja]" "jid ja = a" "priority ja = 1"
    by auto
  have p2: "\<exists>jb. pendingJobs ?q2 = [jb, ja] \<and> jid jb = b \<and> priority jb = 5"
    using enqueue_full [OF f1, of b 5] ja
    by (simp add: insert_by_priority_def splice_insert_def)
  then obtain jb where jb: "pendingJobs ?q2 = [jb, ja]" "jid jb = b" "priority jb = 5"
    by auto
  have p3: "\<exists>jc. pendingJobs ?q3 = [jb, ja, jc] \<and> jid jc = c \<and> priority jc = 1"
    using enqueue_full [OF f2, of c 1] ja jb
    by (simp add: insert_by_priority_def splice_insert_def)
  then obtain jc where jc: "pendingJobs ?q3 = [jb, ja, jc]" "jid jc = c" "priority jc = 1"
    by auto
  have "\<exists>jd. pendingJobs (enqueue d 3 ?q3) = [jb, jd, ja, jc] \<and> jid jd = d \<and> priority jd = 3"
    using enqueue_full [OF f3, of d 3] ja jb jc
    by (simp add: insert_by_priority_def splice_insert_def)
  then show ?thesis using ja jb jc by auto
qed

lemma processQueue_exact:
  assumes "distinct (activeJobs q @ pendingJobs q)"
  shows "pendingJobs (processQueue q)
           = drop (min (free_slots q) (length (pendingJobs q))) (pendingJobs q)
       \<and> activeJobs (processQueue q)
           = activeJobs q @ take (min (free_slots q) (length (pendingJobs q))) (pendingJobs q)
       \<and> start_order (processQueue q)
           = start_order q @ map jid (take (min (free_slots q) (length (pendingJobs q))) (pendingJobs q))
       \<and> created (processQueue q) = created q"
  using assms
proof (induction q rule: processQueue.induct)
  case (1 q)
  show ?case
  proof (cases "int (length (activeJobs q)) < maxConcurrent q \<and> pendingJobs q \<noteq> []")
    case True
    define q1 where "q1 = executeJob_start (hd (pendingJobs q))
             (q\<lparr> pendingJobs := tl (pendingJobs q), queuedJobs := queuedJobs q - 1 \<rparr>)"
    obtain j js where js: "pendingJobs q = j # js" using True by (cases "pendingJobs q") auto
    have notin: "j \<notin> set (activeJobs q)" using "1.prems" js by auto
    have a1: "activeJobs q1 = activeJobs q @ [j]"
      using notin by (simp add: q1_def executeJob_start_def Let_def js set_add_def)
    have p1: "pendingJobs q1 = js" by (simp add: q1_def executeJob_start_def Let_def js)
    have m1: "maxConcurrent q1 = maxConcurrent q" by (simp add: q1_def executeJob_start_def Let_def)
    have c1: "created q1 = created q" by (simp add: q1_def executeJob_start_def Let_def)
    have s1: "start_order q1 = start_order q @ [jid j]"
      using notin
      by (simp add: q1_def executeJob_start_def Let_def js start_order_def start_order_append)
    have d1: "distinct (activeJobs q1 @ pendingJobs q1)"
      using "1.prems" js unfolding a1 p1 by simp
    have "int (length (activeJobs q)) < maxConcurrent q" using True by simp
    then have f: "free_slots q = Suc (free_slots q1)"
      unfolding free_slots_def a1 m1 by simp
    have n: "min (free_slots q) (length (pendingJobs q))
          = Suc (min (free_slots q1) (length (pendingJobs q1)))"
      unfolding f p1 js by simp
    have step: "processQueue q = processQueue q1"
      using True unfolding q1_def by (subst processQueue.simps) simp
    have ih: "pendingJobs (processQueue q1)
           = drop (min (free_slots q1) (length (pendingJobs q1))) (pendingJobs q1)
       \<and> activeJobs (processQueue q1)
           = activeJobs q1 @ take (min (free_slots q1) (length (pendingJobs q1))) (pendingJobs q1)
       \<and> start_order (processQueue q1)
           = start_order q1 @ map jid (take (min (free_slots q1) (length (pendingJobs q1))) (pendingJobs q1))
       \<and> created (processQueue q1) = created q1"
      using "1.IH" [OF True] d1 unfolding q1_def by blast
    show ?thesis
      unfolding step n using ih by (simp add: a1 p1 s1 c1 js)
  next
    case False
    then have stop: "processQueue q = q" by (subst processQueue.simps) auto
    have "min (free_slots q) (length (pendingJobs q)) = 0"
      using False by (auto simp: free_slots_def)
    then show ?thesis by (simp add: stop)
  qed
qed

lemma processQueue_saturated: "saturated (processQueue q)"
proof (induction q rule: processQueue.induct)
  case (1 q)
  show ?case
  proof (cases "int (length (activeJobs q)) < maxConcurrent q \<and> pendingJobs q \<noteq> []")
    case True
    then show ?thesis using "1.IH" by (subst processQueue.simps) simp
  next
    case False
    then have "processQueue q = q" by (subst processQueue.simps) auto
    then show ?thesis using False by (auto simp: saturated_def)
  qed
qed

lemma set_insert_by_priority:
  "set (insert_by_priority job pending) = insert job (set pending)"
proof -
  have "set (takeWhile (\<lambda>j. \<not> priority j < priority job) pending)
          \<union> set (dropWhile (\<lambda>j. \<not> priority j < priority job) pending) = set pending"
    by (metis set_append takeWhile_dropWhile_id)
  then show ?thesis by (auto simp: insert_by_priority_split)
qed

lemma distinct_map_insert_middle:
  "distinct (map f (t @ j # d)) \<longleftrightarrow> f j \<notin> f ` set (t @ d) \<and> distinct (map f (t @ d))"
  by (induction t) auto

lemma distinct_insert_by_priority:
  "distinct (map ref (xs @ insert_by_priority job pending))
     \<longleftrightarrow> ref job \<notin> ref ` set (xs @ pending) \<and> distinct (map ref (xs @ pending))"
proof -
  let ?t = "takeWhile (\<lambda>j. \<not> priority j < priority job) pending"
  let ?d = "dropWhile (\<lambda>j. \<not> priority j < priority job) pending"
  have p: "(xs @ ?t) @ ?d = xs @ pending" by simp
  have "distinct (map ref ((xs @ ?t) @ job # ?d))
          \<longleftrightarrow> ref job \<notin> ref ` set ((xs @ ?t) @ ?d) \<and> distinct (map ref ((xs @ ?t) @ ?d))"
    by (rule distinct_map_insert_middle)
  then show ?thesis unfolding insert_by_priority_split p by simp
qed

lemma fresh_refs_distinct: "fresh_refs q \<Longrightarrow> distinct (activeJobs q @ pendingJobs q)"
  unfolding fresh_refs_def using distinct_map by blast

lemma processQueue_fresh:
  assumes "fresh_refs q"
  shows "fresh_refs (processQueue q)"
proof -
  let ?n = "min (free_slots q) (length (pendingJobs q))"
  have ex: "pendingJobs (processQueue q) = drop ?n (pendingJobs q)"
    "activeJobs (processQueue q) = activeJobs q @ take ?n (pendingJobs q)"
    "created (processQueue q) = created q"
    using processQueue_exact [OF fresh_refs_distinct [OF assms]] by simp_all
  have "activeJobs (processQueue q) @ pendingJobs (processQueue q) = activeJobs q @ pendingJobs q"
    by (simp add: ex)
  then show ?thesis using assms by (simp add: fresh_refs_def ex(3))
qed


lemma enqueue_fresh:
  assumes "fresh_refs q"
  shows "fresh_refs (enqueue i p q)"
proof -
  define job where "job = \<lparr> ref = created q, jid = i, priority = p \<rparr>"
  define q2 where "q2 = q\<lparr> created := created q + 1,
                 totalJobs := totalJobs q + 1,
                 queuedJobs := queuedJobs q + 1,
                 logged := logged q @
                   [JobEnqueued i p (length (pendingJobs q)) (length (activeJobs q))],
                 pendingJobs := insert_by_priority job (pendingJobs q) \<rparr>"
  have e: "enqueue i p q = processQueue q2"
    by (simp add: enqueue_def Let_def q2_def job_def)
  have old: "\<forall>j \<in> set (activeJobs q @ pendingJobs q). ref j < created q"
    using assms by (simp add: fresh_refs_def list_all_iff)
  then have new: "ref job \<notin> ref ` set (activeJobs q @ pendingJobs q)"
    by (auto simp: job_def)
  have parts: "activeJobs q2 = activeJobs q"
    "pendingJobs q2 = insert_by_priority job (pendingJobs q)"
    by (simp_all add: q2_def)
  have "distinct (map ref (activeJobs q @ pendingJobs q))"
    using assms by (simp add: fresh_refs_def)
  then have "distinct (map ref (activeJobs q2 @ pendingJobs q2))"
    unfolding parts distinct_insert_by_priority using new by blast
  moreover have "list_all (\<lambda>j. ref j < created q2) (activeJobs q2 @ pendingJobs q2)"
    using old
    by (auto simp: q2_def list_all_iff set_insert_by_priority job_def less_Suc_eq)
  ultimately have "fresh_refs q2" by (simp add: fresh_refs_def)
  then show ?thesis unfolding e by (rule processQueue_fresh)
qed

lemma settle_fresh:
  assumes "fresh_refs q"
  shows "fresh_refs (settle j out q)"
proof (cases "j \<in> set (activeJobs q)")
  case False
  then show ?thesis using assms by (simp add: settle_def)
next
  case True
  define q2 where "q2 = (case out of
        Resolved \<Rightarrow>
          q\<lparr> completedJobs := completedJobs q + 1,
             logged := logged q @ [JobCompleted (jid j) (int (length (activeJobs q)) - 1)],
             activeJobs := set_delete j (activeJobs q) \<rparr>
      | Rejected msg \<Rightarrow>
          q\<lparr> failedJobs := failedJobs q + 1,
             logged := logged q @ [JobFailed (jid j) msg],
             activeJobs := set_delete j (activeJobs q) \<rparr>
      | TimedOut \<Rightarrow>
          q\<lparr> failedJobs := failedJobs q + 1,
             logged := logged q @ [JobFailed (jid j) ''Job timeout''],
             activeJobs := set_delete j (activeJobs q) \<rparr>)"
  have e: "settle j out q = processQueue q2"
    using True by (cases out) (simp_all add: settle_def q2_def Let_def)
  have parts: "activeJobs q2 = filter (\<lambda>k. k \<noteq> j) (activeJobs q)"
    "pendingJobs q2 = pendingJobs q" "created q2 = created q"
    by (cases out; simp add: q2_def set_delete_def removeAll_filter_not_eq; metis)+
  have "distinct (map ref (activeJobs q2 @ pendingJobs q2))"
    using assms unfolding parts fresh_refs_def
    by (auto simp: distinct_map_filter)
  moreover have "list_all (\<lambda>k. ref k < created q2) (activeJobs q2 @ pendingJobs q2)"
    using assms unfolding parts fresh_refs_def by (auto simp: list_all_iff)
  ultimately have "fresh_refs q2" by (simp add: fresh_refs_def)
  then show ?thesis unfolding e by (rule processQueue_fresh)
qed

lemma enqueue_saturated: "saturated (enqueue i p q)"
  by (simp add: enqueue_def Let_def processQueue_saturated)

lemma settle_saturated: "saturated q \<Longrightarrow> saturated (settle j out q)"
  by (simp add: settle_def Let_def processQueue_saturated)

lemma run_reachable: "fresh_refs (run evs new_queue) \<and> saturated (run evs new_queue)"
proof -
  have "fresh_refs q \<and> saturated q \<Longrightarrow> fresh_refs (foldl apply_event q evs) \<and> saturated (foldl apply_event q evs)" for q
  proof (induction evs arbitrary: q)
    case Nil
    then show ?case by simp
  next
    case (Cons e evs)
    have "fresh_refs (apply_event q e) \<and> saturated (apply_event q e)"
      using Cons.prems
      by (cases e) (simp_all add: enqueue_fresh settle_fresh settle_saturated enqueue_saturated)
    then show ?case using Cons.IH by simp
  qed
  moreover have "fresh_refs new_queue \<and> saturated new_queue"
    by (simp add: fresh_refs_def saturated_def new_queue_def)
  ultimately show ?thesis by (simp add: run_def)
qed

lemma enqueue_starts_at_once:
  assumes "fresh_refs q" and "saturated q"
    and "int (length (activeJobs q)) < maxConcurrent q"
  shows "activeJobs (enqueue i p q) = activeJobs q @ [\<lparr> ref = created q, jid = i, priority = p \<rparr>]
       \<and> pendingJobs (enqueue i p q) = []
       \<and> start_order (enqueue i p q) = start_order q @ [i]"
proof -
  define job where "job = \<lparr> ref = created q, jid = i, priority = p \<rparr>"
  define q2 where "q2 = q\<lparr> created := created q + 1,
                 totalJobs := totalJobs q + 1,
                 queuedJobs := queuedJobs q + 1,
                 logged := logged q @
                   [JobEnqueued i p (length (pendingJobs q)) (length (activeJobs q))],
                 pendingJobs := insert_by_priority job (pendingJobs q) \<rparr>"
  have e: "enqueue i p q = processQueue q2"
    by (simp add: enqueue_def Let_def q2_def job_def)
  have empty: "pendingJobs q = []" using assms(2,3) by (simp add: saturated_def)
  have parts: "pendingJobs q2 = [job]" "activeJobs q2 = activeJobs q"
    "maxConcurrent q2 = maxConcurrent q"
    by (simp_all add: q2_def empty insert_by_priority_def)
  have so: "start_order q2 = start_order q"
    by (simp add: q2_def start_order_def start_order_append)
  have "\<forall>j \<in> set (activeJobs q). ref j < created q"
    using assms(1) by (simp add: fresh_refs_def list_all_iff)
  then have "job \<notin> set (activeJobs q)" by (auto simp: job_def)
  moreover have "distinct (activeJobs q)"
    using fresh_refs_distinct [OF assms(1)] by simp
  ultimately have d: "distinct (activeJobs q2 @ pendingJobs q2)"
    by (simp add: parts)
  have "0 < free_slots q2" using assms(3) by (simp add: free_slots_def parts)
  then have n: "min (free_slots q2) (length (pendingJobs q2)) = 1"
    by (simp add: parts)
  from processQueue_exact [OF d] show ?thesis
    unfolding e n by (simp add: parts so job_def)
qed

text \<open>
  Claim C2, as stated, fails. A new queue has free capacity, so \<open>enqueue\<close> starts the
  first three jobs at once, in the order of the calls: jobs enqueued with the priorities
  1, 5, 1, 3 (ids a, b, c, d) are dequeued in the order a, b, c, d, not b, d, a, c.
\<close>

theorem C2_dequeue_order_counterexample:
  "start_order (run [Enqueue ''a'' 1, Enqueue ''b'' 5, Enqueue ''c'' 1, Enqueue ''d'' 3,
                     Settle \<lparr> ref = 0, jid = ''a'', priority = 1 \<rparr> Resolved] new_queue)
     = [''a'', ''b'', ''c'', ''d'']"
  by code_simp

text \<open>
  Claim C2, amended. \<open>enqueue\<close> keeps the pending list in descending order of priority,
  and so it is in every state a new queue reaches.
  On a queue without free capacity the new job is placed behind every pending job of
  priority at least its own and before every job of lower priority, the order of the
  others unchanged; jobs enqueued there (with nothing pending) with the priorities
  1, 5, 1, 3 wait in the order 5, 3, 1, 1, the two jobs of priority 1 in the order of
  their calls. \<open>processQueue\<close> starts jobs from the front of the pending list, in its
  order, as many as there are free slots (or all of them, when there are fewer). In
  every state a new queue reaches, a job waits only while the active set is full; and
  while capacity is free there, \<open>enqueue\<close> starts the new job at once, whatever its
  priority. With three jobs x, y, z holding the capacity of a new queue, the jobs
  a, b, c, d of priorities 1, 5, 1, 3 are started in the order b, d, a, c as the capacity
  frees up.
\<close>

theorem C2_priority_order:
  assumes "sorted_wrt (\<ge>) (priorities (pendingJobs q))"
  shows "sorted_wrt (\<ge>) (priorities (pendingJobs (enqueue i p q)))
    \<and> sorted_wrt (\<ge>) (priorities (pendingJobs (run evs new_queue)))
    \<and> (maxConcurrent q \<le> int (length (activeJobs q)) \<longrightarrow>
         pendingJobs (enqueue i p q) =
           filter (\<lambda>j. p \<le> priority j) (pendingJobs q)
             @ \<lparr> ref = created q, jid = i, priority = p \<rparr>
             # filter (\<lambda>j. priority j < p) (pendingJobs q))
    \<and> (maxConcurrent q \<le> int (length (activeJobs q)) \<and> pendingJobs q = [] \<longrightarrow>
         map (\<lambda>j. (jid j, priority j))
           (pendingJobs (enqueue d 3 (enqueue c 1 (enqueue b 5 (enqueue a 1 q)))))
         = [(b, 5), (d, 3), (a, 1), (c, 1)])
    \<and> (\<exists>n. pendingJobs (processQueue q) = drop n (pendingJobs q)
           \<and> start_order (processQueue q) = start_order q @ map jid (take n (pendingJobs q)))
    \<and> (distinct (activeJobs q @ pendingJobs q) \<longrightarrow>
         pendingJobs (processQueue q)
           = drop (min (free_slots q) (length (pendingJobs q))) (pendingJobs q)
         \<and> activeJobs (processQueue q)
           = activeJobs q @ take (min (free_slots q) (length (pendingJobs q))) (pendingJobs q)
         \<and> start_order (processQueue q)
           = start_order q
               @ map jid (take (min (free_slots q) (length (pendingJobs q))) (pendingJobs q)))
    \<and> distinct (activeJobs (run evs new_queue) @ pendingJobs (run evs new_queue))
    \<and> (pendingJobs (run evs new_queue) = []
         \<or> maxConcurrent (run evs new_queue) \<le> int (length (activeJobs (run evs new_queue))))
    \<and> (int (length (activeJobs (run evs new_queue))) < maxConcurrent (run evs new_queue) \<longrightarrow>
         activeJobs (enqueue i p (run evs new_queue))
           = activeJobs (run evs new_queue)
               @ [\<lparr> ref = created (run evs new_queue), jid = i, priority = p \<rparr>]
         \<and> pendingJobs (enqueue i p (run evs new_queue)) = []
         \<and> start_order (enqueue i p (run evs new_queue)) = start_order (run evs new_queue) @ [i])
    \<and> start_order (run [Enqueue ''x'' 0, Enqueue ''y'' 0, Enqueue ''z'' 0,
                   Enqueue ''a'' 1, Enqueue ''b'' 5, Enqueue ''c'' 1, Enqueue ''d'' 3,
                   Settle \<lparr> ref = 0, jid = ''x'', priority = 0 \<rparr> Resolved,
                   Settle \<lparr> ref = 1, jid = ''y'', priority = 0 \<rparr> TimedOut,
                   Settle \<lparr> ref = 2, jid = ''z'', priority = 0 \<rparr> (Rejected ''failed''),
                   Settle \<lparr> ref = 4, jid = ''b'', priority = 5 \<rparr> Resolved] new_queue)
         = [''x'', ''y'', ''z'', ''b'', ''d'', ''a'', ''c'']"
proof (intro conjI impI)
  show "sorted_wrt (\<ge>) (priorities (pendingJobs (enqueue i p q)))"
    by (rule enqueue_sorted [OF assms])
next
  show "sorted_wrt (\<ge>) (priorities (pendingJobs (run evs new_queue)))"
    by (rule run_sorted) (simp add: new_queue_def priorities_def)
next
  assume "maxConcurrent q \<le> int (length (activeJobs q))"
  then show "pendingJobs (enqueue i p q) =
           filter (\<lambda>j. p \<le> priority j) (pendingJobs q)
             @ \<lparr> ref = created q, jid = i, priority = p \<rparr>
             # filter (\<lambda>j. priority j < p) (pendingJobs q)"
    by (rule enqueue_full_pending [OF assms])
next
  assume "maxConcurrent q \<le> int (length (activeJobs q)) \<and> pendingJobs q = []"
  then show "map (\<lambda>j. (jid j, priority j))
           (pendingJobs (enqueue d 3 (enqueue c 1 (enqueue b 5 (enqueue a 1 q)))))
         = [(b, 5), (d, 3), (a, 1), (c, 1)]"
    by (simp add: enqueue_four_full)
next
  show "\<exists>n. pendingJobs (processQueue q) = drop n (pendingJobs q)
           \<and> start_order (processQueue q) = start_order q @ map jid (take n (pendingJobs q))"
    by (rule processQueue_front)
next
  assume d: "distinct (activeJobs q @ pendingJobs q)"
  show "pendingJobs (processQueue q)
           = drop (min (free_slots q) (length (pendingJobs q))) (pendingJobs q)"
    using processQueue_exact [OF d] by simp
  show "activeJobs (processQueue q)
           = activeJobs q @ take (min (free_slots q) (length (pendingJobs q))) (pendingJobs q)"
    using processQueue_exact [OF d] by simp
  show "start_order (processQueue q)
           = start_order q
               @ map jid (take (min (free_slots q) (length (pendingJobs q))) (pendingJobs q))"
    using processQueue_exact [OF d] by simp
next
  show "distinct (activeJobs (run evs new_queue) @ pendingJobs (run evs new_queue))"
    using run_reachable [of evs] by (simp only: fresh_refs_distinct)
next
  show "pendingJobs (run evs new_queue) = []
         \<or> maxConcurrent (run evs new_queue) \<le> int (length (activeJobs (run evs new_queue)))"
    using run_reachable [of evs] by (simp add: saturated_def)
next
  assume free: "int (length (activeJobs (run evs new_queue))) < maxConcurrent (run evs new_queue)"
  have r: "fresh_refs (run evs new_queue)" "saturated (run evs new_queue)"
    using run_reachable [of evs] by simp_all
  show "activeJobs (enqueue i p (run evs new_queue))
           = activeJobs (run evs new_queue)
               @ [\<lparr> ref = created (run evs new_queue), jid = i, priority = p \<rparr>]"
    using enqueue_starts_at_once [OF r free] by simp
  show "pendingJobs (enqueue i p (run evs new_queue)) = []"
    using enqueue_starts_at_once [OF r free] by simp
  show "start_order (enqueue i p (run evs new_queue)) = start_order (run evs new_queue) @ [i]"
    using enqueue_starts_at_once [OF r free] by simp
next
  show "start_order (run [Enqueue ''x'' 0, Enqueue ''y'' 0, Enqueue ''z'' 0,
                   Enqueue ''a'' 1, Enqueue ''b'' 5, Enqueue ''c'' 1, Enqueue ''d'' 3,
                   Settle \<lparr> ref = 0, jid = ''x'', priority = 0 \<rparr> Resolved,
                   Settle \<lparr> ref = 1, jid = ''y'', priority = 0 \<rparr> TimedOut,
                   Settle \<lparr> ref = 2, jid = ''z'', priority = 0 \<rparr> (Rejected ''failed''),
                   Settle \<lparr> ref = 4, jid = ''b'', priority = 5 \<rparr> Resolved] new_queue)
         = [''x'', ''y'', ''z'', ''b'', ''d'', ''a'', ''c'']"
    by code_simp
qed

theorem C2_priority_order_witness:
  "sorted_wrt (\<ge>) (priorities (pendingJobs
       (run [Enqueue ''x'' 0, Enqueue ''y'' 0, Enqueue ''z'' 0] new_queue)))
   \<and> maxConcurrent (run [Enqueue ''x'' 0, Enqueue ''y'' 0, Enqueue ''z'' 0] new_queue)
       \<le> int (length (activeJobs (run [Enqueue ''x'' 0, Enqueue ''y'' 0, Enqueue ''z'' 0] new_queue)))
   \<and> pendingJobs (run [Enqueue ''x'' 0, Enqueue ''y'' 0, Enqueue ''z'' 0] new_queue) = []
   \<and> distinct (activeJobs (run [Enqueue ''x'' 0, Enqueue ''y'' 0, Enqueue ''z'' 0] new_queue)
        @ pendingJobs (run [Enqueue ''x'' 0, Enqueue ''y'' 0, Enqueue ''z'' 0] new_queue))
   \<and> map (\<lambda>j. (jid j, priority j))
        (pendingJobs (enqueue ''d'' 3 (enqueue ''c'' 1 (enqueue ''b'' 5 (enqueue ''a'' 1
           (run [Enqueue ''x'' 0, Enqueue ''y'' 0, Enqueue ''z'' 0] new_queue))))))
       = [(''b'', 5), (''d'', 3), (''a'', 1), (''c'', 1)]
   \<and> int (length (activeJobs (run [] new_queue))) < maxConcurrent (run [] new_queue)
   \<and> activeJobs (enqueue ''n'' (- 7) (run [] new_queue))
       = [\<lparr> ref = 0, jid = ''n'', priority = - 7 \<rparr>]
   \<and> pendingJobs (enqueue ''n'' (- 7) (run [] new_queue)) = []
   \<and> start_order (enqueue ''n'' (- 7) (run [] new_queue)) = [''n'']"
proof -
  let ?q = "run [Enqueue ''x'' 0, Enqueue ''y'' 0, Enqueue ''z'' 0] new_queue"
  have empty: "pendingJobs ?q = []" by code_simp
  have full: "maxConcurrent ?q \<le> int (length (activeJobs ?q))" by code_simp
  have dist: "distinct (activeJobs ?q @ pendingJobs ?q)" by code_simp
  have sorted: "sorted_wrt (\<ge>) (priorities (pendingJobs ?q))"
    by (simp add: empty priorities_def)
  have free: "int (length (activeJobs (run [] new_queue))) < maxConcurrent (run [] new_queue)"
    by code_simp
  have init: "activeJobs (run [] new_queue) = []" "created (run [] new_queue) = 0"
    "start_order (run [] new_queue) = []"
    by code_simp+
  from C2_priority_order [OF sorted, of "''n''" "- 7" "[]" "''d''" "''c''" "''b''" "''a''"]
  have once: "activeJobs (enqueue ''n'' (- 7) (run [] new_queue))
       = [\<lparr> ref = 0, jid = ''n'', priority = - 7 \<rparr>]
     \<and> pendingJobs (enqueue ''n'' (- 7) (run [] new_queue)) = []
     \<and> start_order (enqueue ''n'' (- 7) (run [] new_queue)) = [''n'']"
    using free init by simp
  from C2_priority_order [OF sorted, of "''n''" "- 7" "[]" "''d''" "''c''" "''b''" "''a''"]
    empty full
  have four: "map (\<lambda>j. (jid j, priority j))
        (pendingJobs (enqueue ''d'' 3 (enqueue ''c'' 1 (enqueue ''b'' 5 (enqueue ''a'' 1 ?q)))))
       = [(''b'', 5), (''d'', 3), (''a'', 1), (''c'', 1)]"
    by blast
  show ?thesis using sorted full empty dist four free once by blast
qed

end
